theory Spec2Isabelle
  imports Main "HOL-Library.Sublist"
begin

section \<open>JavaScript strings\<close>

text \<open>
  A JavaScript string is a sequence of UTF-16 code units. The regular expressions of
  \<^verbatim>\<open>content.js\<close> carry no \<^verbatim>\<open>u\<close> flag, so they match code unit by code unit, and
  \<^verbatim>\<open>split('')\<close> cuts a string into its code units. A code unit is modelled by its number;
  \<open>js\<close> turns an ASCII literal into such a string.
\<close>

type_synonym jschar = nat
type_synonym jsstring = "jschar list"

definition js :: "string \<Rightarrow> jsstring" where
  "js s = map of_char s"

text \<open>\<^verbatim>\<open>s.replace(/c/g, r)\<close> for a single literal character \<open>c\<close> and a replacement
  \<open>r\<close> without dollar signs.\<close>

definition replaceAllChar :: "jschar \<Rightarrow> jsstring \<Rightarrow> jsstring \<Rightarrow> jsstring" where
  "replaceAllChar c r s = concat (map (\<lambda>x. if x = c then r else [x]) s)"

text \<open>\<^verbatim>\<open>escapeHtml\<close> (content.js, 135-142): five replacements, one after the other, of
  \<^verbatim>\<open>&\<close> (38), \<^verbatim>\<open><\<close> (60), \<^verbatim>\<open>>\<close> (62), the double quote (34) and the single quote (39).\<close>

definition escapeHtml :: "jsstring \<Rightarrow> jsstring" where
  "escapeHtml text =
     replaceAllChar 39 (js ''&#039;'')
      (replaceAllChar 34 (js ''&quot;'')
        (replaceAllChar 62 (js ''&gt;'')
          (replaceAllChar 60 (js ''&lt;'')
            (replaceAllChar 38 (js ''&amp;'') text))))"

text \<open>\<^verbatim>\<open>hay.includes(needle)\<close>.\<close>

fun startsWith :: "jsstring \<Rightarrow> jsstring \<Rightarrow> bool" where
  "startsWith hay [] = True"
| "startsWith [] (n # ns) = False"
| "startsWith (h # hs) (n # ns) = (h = n \<and> startsWith hs ns)"

fun includes_str :: "jsstring \<Rightarrow> jsstring \<Rightarrow> bool" where
  "includes_str [] needle = (needle = [])"
| "includes_str (h # hs) needle = (startsWith (h # hs) needle \<or> includes_str hs needle)"

text \<open>\<^verbatim>\<open>parts.join(sep)\<close>.\<close>

fun join :: "jsstring \<Rightarrow> jsstring list \<Rightarrow> jsstring" where
  "join sep [] = []"
| "join sep [x] = x"
| "join sep (x # y # ys) = x @ sep @ join sep (y # ys)"

section \<open>The regular expressions built by restorePlaceholders\<close>

text \<open>
  \<^verbatim>\<open>new RegExp(source, 'gi')\<close> is modelled for the fragment of the pattern language that
  \<^verbatim>\<open>restorePlaceholders\<close> can produce from an id made of letters, digits and underscores:
  a sequence of terms, each a one-character atom, plain or under a greedy star. An atom is
  a literal character, the escape \<^verbatim>\<open>\s\<close>, or a character class whose members are literal
  characters and \<^verbatim>\<open>\s\<close>. Inside a class \<^verbatim>\<open>*\<close> and \<^verbatim>\<open>[\<close> are literal members, as in
  ECMAScript. A source outside this fragment (or one that ECMAScript rejects) parses to
  \<open>None\<close>.
\<close>

datatype cmember = MChar jschar | MSpace
datatype atom = AChar jschar | ASpace | AClass "cmember list"
datatype rterm = Once atom | Star atom
datatype pmode = Top | InClass "cmember list"

text \<open>The syntax characters of the pattern grammar:
  \<^verbatim>\<open>^ $ \ . * + ? ( ) [ ] { } |\<close>.\<close>

definition syntaxChar :: "jschar \<Rightarrow> bool" where
  "syntaxChar c = (c \<in> {94, 36, 92, 46, 42, 43, 63, 40, 41, 91, 93, 123, 125, 124})"

text \<open>Literal pattern characters are modelled when they are ASCII or the fullwidth low line
  U+FF3F (65343): for these the case folding below is exact.\<close>

definition modelled :: "jschar \<Rightarrow> bool" where
  "modelled c = (c < 128 \<or> c = 65343)"

fun parse :: "pmode \<Rightarrow> rterm list \<Rightarrow> jsstring \<Rightarrow> rterm list option" where
  "parse Top acc [] = Some (rev acc)"
| "parse (InClass ms) acc [] = None"
| "parse Top acc (c # cs) =
     (if c = 91 then parse (InClass []) acc cs
      else if c = 92 then
        (case cs of [] \<Rightarrow> None
         | e # cs' \<Rightarrow> if e = 115 then parse Top (Once ASpace # acc) cs' else None)
      else if c = 42 then
        (case acc of Once a # acc' \<Rightarrow> parse Top (Star a # acc') cs | _ \<Rightarrow> None)
      else if syntaxChar c \<or> \<not> modelled c then None
      else parse Top (Once (AChar c) # acc) cs)"
| "parse (InClass ms) acc (c # cs) =
     (if c = 93 then parse Top (Once (AClass (rev ms)) # acc) cs
      else if c = 92 then
        (case cs of [] \<Rightarrow> None
         | e # cs' \<Rightarrow> if e = 115 then parse (InClass (MSpace # ms)) acc cs' else None)
      else if c = 45 \<or> c = 94 \<or> \<not> modelled c then None
      else parse (InClass (MChar c # ms)) acc cs)"

text \<open>The characters matched by \<^verbatim>\<open>\s\<close>: the WhiteSpace and LineTerminator code points of
  ECMAScript (TAB, LF, VT, FF, CR, space, U+00A0, U+1680, U+2000 to U+200A, U+2028, U+2029,
  U+202F, U+205F, U+3000, U+FEFF).\<close>

definition isWhiteSpace :: "jschar \<Rightarrow> bool" where
  "isWhiteSpace c =
     (c \<in> {9, 10, 11, 12, 13, 32, 160, 5760, 8232, 8233, 8239, 8287, 12288, 65279}
      \<or> (8192 \<le> c \<and> c \<le> 8202))"

text \<open>
  Canonicalize of the \<^verbatim>\<open>i\<close> flag (without \<^verbatim>\<open>u\<close>): a code unit is replaced by its
  upper-case form, except that a non-ASCII code unit is never mapped to an ASCII one. On
  ASCII this is the map of a-z to A-Z. A non-ASCII code unit therefore never has the
  canonical form of an ASCII character, and U+FF3F and the white space characters have no
  case mapping, so for the modelled pattern characters the comparison below is the one
  ECMAScript makes.
\<close>

definition canonicalize :: "jschar \<Rightarrow> jschar" where
  "canonicalize c = (if 97 \<le> c \<and> c \<le> 122 then c - 32 else c)"

fun member_matches :: "cmember \<Rightarrow> jschar \<Rightarrow> bool" where
  "member_matches (MChar a) c = (canonicalize a = canonicalize c)"
| "member_matches MSpace c = isWhiteSpace c"

fun atom_matches :: "atom \<Rightarrow> jschar \<Rightarrow> bool" where
  "atom_matches (AChar a) c = (canonicalize a = canonicalize c)"
| "atom_matches ASpace c = isWhiteSpace c"
| "atom_matches (AClass ms) c = list_ex (\<lambda>m. member_matches m c) ms"

text \<open>
  The backtracking matcher at the start of \<open>s\<close>: the number of code units consumed on the
  first path that succeeds, in the priority order of ECMAScript (a star first takes one
  more character, and gives it back when the rest of the pattern fails).
\<close>

fun matchAt :: "rterm list \<Rightarrow> jsstring \<Rightarrow> nat option" where
  "matchAt [] s = Some 0"
| "matchAt (Once a # ts) [] = None"
| "matchAt (Once a # ts) (c # cs) =
     (if atom_matches a c then map_option Suc (matchAt ts cs) else None)"
| "matchAt (Star a # ts) [] = matchAt ts []"
| "matchAt (Star a # ts) (c # cs) =
     (if atom_matches a c then
        (case matchAt (Star a # ts) cs of
           Some n \<Rightarrow> Some (Suc n)
         | None \<Rightarrow> matchAt ts (c # cs))
      else matchAt ts (c # cs))"

text \<open>
  GetSubstitution for a pattern without capture groups: in the replacement string
  \<^verbatim>\<open>$$\<close> stands for a dollar sign, \<^verbatim>\<open>$&\<close> for the matched text, \<^verbatim>\<open>$`\<close> for the text
  before the match and \<^verbatim>\<open>$'\<close> for the text after it; every other character, and a
  dollar sign followed by anything else, is copied.
\<close>

fun getSubstitution :: "jsstring \<Rightarrow> jsstring \<Rightarrow> jsstring \<Rightarrow> jsstring \<Rightarrow> jsstring" where
  "getSubstitution matched preceding following [] = []"
| "getSubstitution matched preceding following [c] = [c]"
| "getSubstitution matched preceding following (c # d # r) =
     (if c = 36 \<and> d = 36 then 36 # getSubstitution matched preceding following r
      else if c = 36 \<and> d = 38 then matched @ getSubstitution matched preceding following r
      else if c = 36 \<and> d = 96 then preceding @ getSubstitution matched preceding following r
      else if c = 36 \<and> d = 39 then following @ getSubstitution matched preceding following r
      else c # getSubstitution matched preceding following (d # r))"

text \<open>
  \<^verbatim>\<open>str.replace(pattern, replacement)\<close> for a global pattern: \<open>pre\<close> is the part of the
  string already passed, \<open>s\<close> the rest. Matches are looked for from left to right; after a
  match the search goes on behind it, and behind an empty match one code unit further on.
\<close>

function replaceAll :: "rterm list \<Rightarrow> jsstring \<Rightarrow> jsstring \<Rightarrow> jsstring \<Rightarrow> jsstring" where
  "replaceAll p repl pre [] =
     (case matchAt p [] of
        None \<Rightarrow> []
      | Some n \<Rightarrow> getSubstitution [] pre [] repl)"
| "replaceAll p repl pre (c # cs) =
     (case matchAt p (c # cs) of
        None \<Rightarrow> c # replaceAll p repl (pre @ [c]) cs
      | Some n \<Rightarrow>
          getSubstitution (take n (c # cs)) pre (drop n (c # cs)) repl @
          (if n = 0 then c # replaceAll p repl (pre @ [c]) cs
           else replaceAll p repl (pre @ take n (c # cs)) (drop n (c # cs))))"
  by pat_completeness auto

lemma matchAt_le: "matchAt p s = Some n \<Longrightarrow> n \<le> length s"
proof (induction p s arbitrary: n rule: matchAt.induct)
  case (5 a ts c cs)
  then show ?case
    by (auto split: if_splits option.splits)
qed (auto split: if_splits)

termination replaceAll
proof (relation "measure (\<lambda>(p, repl, pre, s). length s)")
  fix p :: "rterm list" and repl pre cs :: jsstring and c :: jschar and n :: nat
  assume "matchAt p (c # cs) = Some n" and "n \<noteq> 0"
  then have "0 < n" and "n \<le> length (c # cs)"
    using matchAt_le [of p "c # cs" n] by simp_all
  then show "((p, repl, pre @ take n (c # cs), drop n (c # cs)), (p, repl, pre, c # cs))
               \<in> measure (\<lambda>(p, repl, pre, s). length s)"
    by simp
qed auto

declare replaceAll.simps [simp del]

section \<open>restorePlaceholders\<close>

text \<open>
  The placeholder map is a JavaScript object whose keys are not array indices, so
  \<^verbatim>\<open>Object.entries\<close> lists it in insertion order: an association list.
\<close>

type_synonym placeholderMap = "(jsstring \<times> jsstring) list"

text \<open>The source of the pattern (content.js, 120-121): every underscore (95) of the id
  becomes \<^verbatim>\<open>[_\<close>U+FF3F\<^verbatim>\<open>]\<close>, then the result is split into its code units, which are joined
  by \<^verbatim>\<open>\s*\<close> (92, 115, 42).\<close>

definition escapedId :: "jsstring \<Rightarrow> jsstring" where
  "escapedId ident = replaceAllChar 95 [91, 95, 65343, 93] ident"

definition patternSource :: "jsstring \<Rightarrow> jsstring" where
  "patternSource ident = join [92, 115, 42] (map (\<lambda>c. [c]) (escapedId ident))"

definition wrapper :: "jsstring \<Rightarrow> jsstring" where
  "wrapper originalHtml =
     js ''<span class=\"immersive-translate-placeholder\">'' @ originalHtml @ js ''</span>''"

text \<open>The loop over the entries (content.js, 117-127). \<open>None\<close>: an id whose pattern is
  outside the modelled fragment.\<close>

fun restoreLoop :: "placeholderMap \<Rightarrow> jsstring \<Rightarrow> jsstring option" where
  "restoreLoop [] html = Some html"
| "restoreLoop ((ident, originalHtml) # rest) html =
     (case parse Top [] (patternSource ident) of
        None \<Rightarrow> None
      | Some pattern \<Rightarrow> restoreLoop rest (replaceAll pattern (wrapper originalHtml) [] html))"

definition restorePlaceholders :: "jsstring \<Rightarrow> placeholderMap \<Rightarrow> jsstring option" where
  "restorePlaceholders translatedText pmap =
     (if translatedText = [] then Some [] else restoreLoop pmap (escapeHtml translatedText))"

section \<open>Placeholder ids and their drifted forms\<close>

text \<open>
  The ids that \<^verbatim>\<open>getTranslatableText\<close> puts into a placeholder map are made of ASCII
  letters, digits and underscores (95).
\<close>

definition idChar :: "jschar \<Rightarrow> bool" where
  "idChar c = ((48 \<le> c \<and> c \<le> 57) \<or> (65 \<le> c \<and> c \<le> 90) \<or> (97 \<le> c \<and> c \<le> 122) \<or> c = 95)"

text \<open>
  The pattern that the source of an id parses to. An underscore gives the class
  \<^verbatim>\<open>[\s*_\s*\<close>U+FF3F\<^verbatim>\<open>\s*]\<close>, because the split puts \<^verbatim>\<open>\s*\<close> between the members of
  \<^verbatim>\<open>[_\<close>U+FF3F\<^verbatim>\<open>]\<close> as well: white space, the asterisk (42), the underscore and U+FF3F.
  Every other character stands for itself, and \<^verbatim>\<open>\s*\<close> lies between two characters.
\<close>

definition underscoreClass :: atom where
  "underscoreClass = AClass [MSpace, MChar 42, MChar 95, MSpace, MChar 42, MChar 65343, MSpace, MChar 42]"

definition atom_of :: "jschar \<Rightarrow> atom" where
  "atom_of t = (if t = 95 then underscoreClass else AChar t)"

fun tail_terms :: "jsstring \<Rightarrow> rterm list" where
  "tail_terms [] = []"
| "tail_terms (t # ts) = Star ASpace # Once (atom_of t) # tail_terms ts"

fun terms_of :: "jsstring \<Rightarrow> rterm list" where
  "terms_of [] = []"
| "terms_of (t # ts) = Once (atom_of t) # tail_terms ts"

text \<open>What one character of an id contributes to the source of the pattern.\<close>

definition piece :: "jschar \<Rightarrow> jsstring" where
  "piece c = (if c = 95 then [91, 92, 115, 42, 95, 92, 115, 42, 65343, 92, 115, 42, 93] else [c])"

text \<open>
  Drifted forms of an id. \<open>V t c\<close> says that the character \<open>c\<close> may stand for the
  character \<open>t\<close> of the id; white space may be inserted between two characters of the id.
  The documented tolerances let U+FF3F stand for an underscore and nothing else change; the
  forms the pattern matches also let an asterisk or a white space character stand for an
  underscore, and a letter change its case.
\<close>

definition documented_variant :: "jschar \<Rightarrow> jschar \<Rightarrow> bool" where
  "documented_variant t c = (if t = 95 then c = 95 \<or> c = 65343 else c = t)"

definition matched_variant :: "jschar \<Rightarrow> jschar \<Rightarrow> bool" where
  "matched_variant t c =
     (if t = 95 then c = 95 \<or> c = 65343 \<or> c = 42 \<or> isWhiteSpace c
      else canonicalize c = canonicalize t)"

fun drifted_tail :: "(jschar \<Rightarrow> jschar \<Rightarrow> bool) \<Rightarrow> jsstring \<Rightarrow> jsstring \<Rightarrow> bool" where
  "drifted_tail V [] s = (s = [])"
| "drifted_tail V (t # ts) [] = False"
| "drifted_tail V (t # ts) (c # cs) =
     ((V t c \<and> drifted_tail V ts cs) \<or> (isWhiteSpace c \<and> drifted_tail V (t # ts) cs))"

fun drifted :: "(jschar \<Rightarrow> jschar \<Rightarrow> bool) \<Rightarrow> jsstring \<Rightarrow> jsstring \<Rightarrow> bool" where
  "drifted V (t # ts) (c # cs) = (V t c \<and> drifted_tail V ts cs)"
| "drifted V tok s = False"

section \<open>The document fragment handed to getTranslatableText\<close>

text \<open>
  An element of the page with its subtree: a text node, or an element with its tag name (in
  lower case, as the HTML parser stores it), its attributes in source order, and its
  children. Comment nodes are left out. A node inside a tree is named by its path, the
  child indices from the root.
\<close>

datatype node = Text jsstring | Element jsstring "(jsstring \<times> jsstring) list" "node list"

type_synonym path = "nat list"

primrec subtree_at :: "node \<Rightarrow> path \<Rightarrow> node option" where
  "subtree_at n [] = Some n"
| "subtree_at n (i # p) =
     (case n of
        Text s \<Rightarrow> None
      | Element t a cs \<Rightarrow> if i < length cs then subtree_at (cs ! i) p else None)"

text \<open>The paths of all descendants in document order (preorder), the root left out.\<close>

fun paths_node :: "node \<Rightarrow> path list"
  and paths_children :: "nat \<Rightarrow> node list \<Rightarrow> path list" where
  "paths_node (Text s) = []"
| "paths_node (Element t a cs) = paths_children 0 cs"
| "paths_children i [] = []"
| "paths_children i (c # cs) = [i] # map ((#) i) (paths_node c) @ paths_children (Suc i) cs"

text \<open>
  The \<^verbatim>\<open>textContent\<close> getter, and the setter applied to the node at a path: the children
  of that node are replaced by one text node (by none for the empty string).
\<close>

fun textContent :: "node \<Rightarrow> jsstring" where
  "textContent (Text s) = s"
| "textContent (Element t a cs) = concat (map textContent cs)"

primrec set_textContent_at :: "node \<Rightarrow> path \<Rightarrow> jsstring \<Rightarrow> node" where
  "set_textContent_at n [] s =
     (case n of
        Text x \<Rightarrow> Text s
      | Element t a cs \<Rightarrow> Element t a (if s = [] then [] else [Text s]))"
| "set_textContent_at n (i # p) s =
     (case n of
        Text x \<Rightarrow> Text x
      | Element t a cs \<Rightarrow>
          if i < length cs then Element t a (cs[i := set_textContent_at (cs ! i) p s]) else n)"

text \<open>
  The selectors of \<^verbatim>\<open>getTranslatableText\<close>: a class selector (the class attribute is a
  list of tokens separated by ASCII white space), a type selector, and
  \<^verbatim>\<open>script[type^="math/"]\<close>, where the value of \<^verbatim>\<open>type\<close> is compared without regard to
  ASCII case, as HTML prescribes for that attribute.
\<close>

definition asciiWhitespace :: "jschar \<Rightarrow> bool" where
  "asciiWhitespace c = (c \<in> {9, 10, 12, 13, 32})"

fun splitTokens :: "jsstring \<Rightarrow> jsstring \<Rightarrow> jsstring list" where
  "splitTokens cur [] = (if cur = [] then [] else [cur])"
| "splitTokens cur (c # cs) =
     (if asciiWhitespace c then (if cur = [] then splitTokens [] cs else cur # splitTokens [] cs)
      else splitTokens (cur @ [c]) cs)"

definition classList :: "node \<Rightarrow> jsstring list" where
  "classList n =
     (case n of
        Text s \<Rightarrow> []
      | Element t a cs \<Rightarrow> (case map_of a (js ''class'') of None \<Rightarrow> [] | Some v \<Rightarrow> splitTokens [] v))"

definition asciiLower :: "jschar \<Rightarrow> jschar" where
  "asciiLower c = (if 65 \<le> c \<and> c \<le> 90 then c + 32 else c)"

datatype selector = ByClass jsstring | ByTag jsstring | ByTagTypePrefix jsstring jsstring

fun matches :: "selector \<Rightarrow> node \<Rightarrow> bool" where
  "matches sel (Text s) = False"
| "matches (ByClass c) (Element t a cs) = (c \<in> set (classList (Element t a cs)))"
| "matches (ByTag g) (Element t a cs) = (t = g)"
| "matches (ByTagTypePrefix g v) (Element t a cs) =
     (t = g \<and> (case map_of a (js ''type'') of
                  None \<Rightarrow> False
                | Some x \<Rightarrow> startsWith (map asciiLower x) (map asciiLower v)))"

definition matchesAny :: "selector list \<Rightarrow> node \<Rightarrow> bool" where
  "matchesAny sels n = list_ex (\<lambda>sel. matches sel n) sels"

definition mathSelectors :: "selector list" where
  "mathSelectors =
     [ByClass (js ''MathJax''), ByClass (js ''jax''), ByClass (js ''math''),
      ByClass (js ''katex''), ByClass (js ''mjx-chtml''),
      ByTagTypePrefix (js ''script'') (js ''math/''), ByTag (js ''math'')]"

definition codeSelectors :: "selector list" where
  "codeSelectors = [ByTag (js ''code''), ByTag (js ''pre'')]"

text \<open>\<^verbatim>\<open>root.querySelectorAll(selectors)\<close>: the matching descendants in document order,
  each with its path. The list is static: it is not updated when the tree changes.\<close>

definition querySelectorAll :: "selector list \<Rightarrow> node \<Rightarrow> (path \<times> node) list" where
  "querySelectorAll sels root =
     List.map_filter
       (\<lambda>p. case subtree_at root p of
               None \<Rightarrow> None
             | Some n \<Rightarrow> if matchesAny sels n then Some (p, n) else None)
       (paths_node root)"

text \<open>
  \<^verbatim>\<open>outerHTML\<close>, the HTML fragment serialisation: void elements have no end tag, text is
  escaped except inside the raw text elements, attribute values are escaped and quoted.
\<close>

definition voidElement :: "jsstring \<Rightarrow> bool" where
  "voidElement t =
     (t \<in> set (map js [''area'', ''base'', ''basefont'', ''bgsound'', ''br'', ''col'', ''embed'',
                        ''frame'', ''hr'', ''img'', ''input'', ''keygen'', ''link'', ''meta'',
                        ''param'', ''source'', ''track'', ''wbr'']))"

definition rawTextElement :: "jsstring \<Rightarrow> bool" where
  "rawTextElement t =
     (t \<in> set (map js [''style'', ''script'', ''xmp'', ''iframe'', ''noembed'', ''noframes'',
                        ''plaintext'', ''noscript'']))"

definition escapeText :: "jsstring \<Rightarrow> jsstring" where
  "escapeText s =
     replaceAllChar 62 (js ''&gt;'')
      (replaceAllChar 60 (js ''&lt;'')
        (replaceAllChar 160 (js ''&nbsp;'')
          (replaceAllChar 38 (js ''&amp;'') s)))"

definition escapeAttr :: "jsstring \<Rightarrow> jsstring" where
  "escapeAttr s =
     replaceAllChar 34 (js ''&quot;'')
      (replaceAllChar 160 (js ''&nbsp;'')
        (replaceAllChar 38 (js ''&amp;'') s))"

definition serializeAttrs :: "(jsstring \<times> jsstring) list \<Rightarrow> jsstring" where
  "serializeAttrs a = concat (map (\<lambda>(k, v). 32 # k @ js ''=\"'' @ escapeAttr v @ js ''\"'') a)"

fun outerHTML :: "node \<Rightarrow> jsstring"
  and serializeChildren :: "bool \<Rightarrow> node list \<Rightarrow> jsstring" where
  "outerHTML (Text s) = escapeText s"
| "outerHTML (Element t a cs) =
     60 # t @ serializeAttrs a @ [62] @
     (if voidElement t then [] else serializeChildren (rawTextElement t) cs @ js ''</'' @ t @ [62])"
| "serializeChildren raw [] = []"
| "serializeChildren raw (Text s # cs) =
     (if raw then s else escapeText s) @ serializeChildren raw cs"
| "serializeChildren raw (Element t a ds # cs) =
     outerHTML (Element t a ds) @ serializeChildren raw cs"

text \<open>\<^verbatim>\<open>.replace(/\s+/g, ' ')\<close>: every maximal run of white space becomes one space; the flag
  says that the previous character belonged to a run. Then \<^verbatim>\<open>.trim()\<close>.\<close>

fun collapseWhitespace :: "bool \<Rightarrow> jsstring \<Rightarrow> jsstring" where
  "collapseWhitespace inRun [] = []"
| "collapseWhitespace inRun (c # cs) =
     (if isWhiteSpace c then (if inRun then collapseWhitespace True cs else 32 # collapseWhitespace True cs)
      else c # collapseWhitespace False cs)"

definition trim :: "jsstring \<Rightarrow> jsstring" where
  "trim s = rev (dropWhile isWhiteSpace (rev (dropWhile isWhiteSpace s)))"

text \<open>The decimal digits of the placeholder index, and the id \<^verbatim>\<open>__KIND_n__\<close>.\<close>

fun decimal :: "nat \<Rightarrow> jsstring" where
  "decimal n = (if n < 10 then [48 + n] else decimal (n div 10) @ [48 + n mod 10])"

declare decimal.simps [simp del]

definition placeholderId :: "jsstring \<Rightarrow> nat \<Rightarrow> jsstring" where
  "placeholderId kind n = js ''__'' @ kind @ js ''_'' @ decimal n @ js ''__''"

text \<open>\<^verbatim>\<open>placeholderMap[id] = html\<close>: a new key is appended, an existing key keeps its place.\<close>

fun setProperty :: "placeholderMap \<Rightarrow> jsstring \<Rightarrow> jsstring \<Rightarrow> placeholderMap" where
  "setProperty [] k v = [(k, v)]"
| "setProperty ((k', v') # m) k v = (if k' = k then (k, v) # m else (k', v') # setProperty m k v)"

text \<open>
  The two \<^verbatim>\<open>forEach\<close> loops (content.js, 86-91 and 95-99) over a node list taken from
  the clone. Each listed node gets the next id, its \<^verbatim>\<open>outerHTML\<close> is recorded, and its
  text content is set to the id between two spaces (32). The loop changes nothing inside a
  node that it has not visited yet: it only replaces the children of nodes listed before,
  which are ancestors of the node or lie outside its subtree. So the node visited is the
  subtree found when the list was made, and it is carried in the list. When an ancestor of
  the node has been visited before (its path is a proper prefix), the node is no longer
  part of the clone, and setting its text content leaves the clone as it is.
\<close>

fun forEachPlaceholder ::
  "jsstring \<Rightarrow> path list \<Rightarrow> (path \<times> node) list \<Rightarrow> node \<times> placeholderMap \<times> nat
     \<Rightarrow> node \<times> placeholderMap \<times> nat" where
  "forEachPlaceholder kind visited [] st = st"
| "forEachPlaceholder kind visited ((p, el) # rest) (clone, pmap, placeholderIndex) =
     (let ident = placeholderId kind placeholderIndex;
          pmap' = setProperty pmap ident (outerHTML el);
          clone' = (if list_ex (\<lambda>q. strict_prefix q p) visited then clone
                    else set_textContent_at clone p (32 # ident @ [32]))
      in forEachPlaceholder kind (visited @ [p]) rest (clone', pmap', Suc placeholderIndex))"

text \<open>
  \<^verbatim>\<open>getTranslatableText\<close> (content.js, 73-107). The clone is a value here, so cloning is
  the identity. The clone is not rendered, so \<^verbatim>\<open>innerText\<close> is \<^verbatim>\<open>textContent\<close>.
\<close>

definition getTranslatableText :: "node \<Rightarrow> jsstring \<times> placeholderMap" where
  "getTranslatableText element =
     (let clone = element;
          (clone1, pmap1, index1) =
             forEachPlaceholder (js ''MATH'') [] (querySelectorAll mathSelectors clone) (clone, [], 0);
          (clone2, pmap2, index2) =
             forEachPlaceholder (js ''CODE'') [] (querySelectorAll codeSelectors clone1)
               (clone1, pmap1, index1);
          text = trim (collapseWhitespace False (textContent clone2))
      in (text, pmap2))"

section \<open>The translation client of the service worker\<close>

text \<open>
  The values found in a JSON response of the backend and in the result arrays: strings,
  \<^verbatim>\<open>null\<close>, arrays, and \<^verbatim>\<open>undefined\<close> for an index out of range. JSON numbers, booleans
  and objects are not part of the model.
\<close>

datatype jsval = JString jsstring | JNull | JUndefined | JArray "jsval list"

fun truthy :: "jsval \<Rightarrow> bool" where
  "truthy (JString s) = (s \<noteq> [])"
| "truthy JNull = False"
| "truthy JUndefined = False"
| "truthy (JArray xs) = True"

text \<open>\<^verbatim>\<open>xs[i]\<close> on an array: \<^verbatim>\<open>undefined\<close> out of range.\<close>

definition elementAt :: "jsval list \<Rightarrow> nat \<Rightarrow> jsval" where
  "elementAt xs i = (if i < length xs then xs ! i else JUndefined)"

fun toString :: "jsval \<Rightarrow> jsstring" where
  "toString (JString s) = s"
| "toString JNull = js ''null''"
| "toString JUndefined = js ''undefined''"
| "toString (JArray xs) =
     join [44] (map (\<lambda>x. case x of JNull \<Rightarrow> [] | JUndefined \<Rightarrow> [] | _ \<Rightarrow> toString x) xs)"

text \<open>
  What an attempt can throw: \<^verbatim>\<open>fetch\<close> rejects (transport failure, with its message), the
  status is not ok (\<^verbatim>\<open>new Error(`HTTP ${status}: ${statusText}`)\<close>), the body is not JSON,
  or the body is not an array where \<^verbatim>\<open>data.map\<close> is called.
\<close>

datatype error = NetworkError jsstring | HttpError nat jsstring | SyntaxError | TypeError

text \<open>
  The outcome of one \<^verbatim>\<open>fetch\<close>: rejected, or a response with status, status text and
  body (\<open>None\<close>: not valid JSON). The backend is a function of the number of requests made
  before, the two languages and the texts of the request.
\<close>

datatype fetchResult = Rejected jsstring | Response nat jsstring "jsval option"

type_synonym backend = "nat \<Rightarrow> jsstring \<Rightarrow> jsstring \<Rightarrow> jsstring list \<Rightarrow> fetchResult"

type_synonym cache = "jsstring \<rightharpoonup> jsval"

text \<open>
  The effects of the service worker: the log of requests sent, the log of \<^verbatim>\<open>delay(ms)\<close>
  calls, and \<^verbatim>\<open>chrome.storage.local\<close>, where each cache key holds an object from hash to
  translation.
\<close>

record world =
  calls :: "jsstring list list"
  delays :: "nat list"
  storage :: "jsstring \<rightharpoonup> cache"

definition delay :: "nat \<Rightarrow> world \<Rightarrow> world" where
  "delay ms w = w\<lparr>delays := delays w @ [ms]\<rparr>"

definition fetch :: "backend \<Rightarrow> jsstring \<Rightarrow> jsstring \<Rightarrow> jsstring list \<Rightarrow> world \<Rightarrow> fetchResult \<times> world" where
  "fetch be sourceLang targetLang texts w = (be (length (calls w)) sourceLang targetLang texts, w\<lparr>calls := calls w @ [texts]\<rparr>)"

text \<open>The normalisation of the response (part_001, 136-149).\<close>

definition normalizeResponse :: "jsstring list \<Rightarrow> jsval \<Rightarrow> error + jsval" where
  "normalizeResponse texts data =
     (if length texts = 1 then
        (case data of
           JArray xs \<Rightarrow>
             Inr (JArray [case elementAt xs 0 of JArray ys \<Rightarrow> elementAt ys 0 | v \<Rightarrow> v])
         | _ \<Rightarrow> Inr (JArray [JString (toString data)]))
      else
        (case data of
           JArray xs \<Rightarrow>
             Inr (JArray (map (\<lambda>item. case item of JArray ys \<Rightarrow> elementAt ys 0
                                         | _ \<Rightarrow> JString (toString item)) xs))
         | _ \<Rightarrow> Inl TypeError))"

text \<open>The body of the \<^verbatim>\<open>try\<close> block of one attempt (part_001, 126-149).\<close>

definition attemptResult :: "jsstring list \<Rightarrow> fetchResult \<Rightarrow> error + jsval" where
  "attemptResult texts r =
     (case r of
        Rejected msg \<Rightarrow> Inl (NetworkError msg)
      | Response status statusText body \<Rightarrow>
          if \<not> (200 \<le> status \<and> status \<le> 299) then Inl (HttpError status statusText)
          else (case body of None \<Rightarrow> Inl SyntaxError | Some data \<Rightarrow> normalizeResponse texts data))"

text \<open>
  \<^verbatim>\<open>translateBatch\<close> (part_001, 108-159): the loop over the attempts. A function that
  leaves the loop without returning yields \<^verbatim>\<open>undefined\<close>.
\<close>

definition maxRetries :: nat where
  "maxRetries = 3"

function translateAttempts ::
  "backend \<Rightarrow> jsstring \<Rightarrow> jsstring \<Rightarrow> jsstring list \<Rightarrow> nat \<Rightarrow> world \<Rightarrow> (error + jsval) \<times> world" where
  "translateAttempts be sourceLang targetLang texts attempt w =
     (if attempt < maxRetries then
        (let (r, w1) = fetch be sourceLang targetLang texts w in
         case attemptResult texts r of
           Inr v \<Rightarrow> (Inr v, w1)
         | Inl e \<Rightarrow>
             if attempt < maxRetries - 1
             then translateAttempts be sourceLang targetLang texts (attempt + 1) (delay (2 ^ attempt * 500) w1)
             else (Inl e, w1))
      else (Inr JUndefined, w))"
  by pat_completeness auto
termination
  by (relation "measure (\<lambda>(be, sourceLang, targetLang, texts, attempt, w). maxRetries - attempt)") auto

declare translateAttempts.simps [simp del]

definition translateBatch ::
  "backend \<Rightarrow> jsstring \<Rightarrow> jsstring \<Rightarrow> jsstring list \<Rightarrow> world \<Rightarrow> (error + jsval) \<times> world" where
  "translateBatch be sourceLang targetLang texts w = translateAttempts be sourceLang targetLang texts 0 w"

text \<open>\<^verbatim>\<open>fetchTranslationsFromApi\<close> (part_001, 82-103): chunks of ten, 200 ms between two
  chunks.\<close>

definition batchSize :: nat where
  "batchSize = 10"

function fetchLoop ::
  "backend \<Rightarrow> jsstring \<Rightarrow> jsstring \<Rightarrow> jsstring list \<Rightarrow> nat \<Rightarrow> jsval list \<Rightarrow> world
     \<Rightarrow> (error + jsval list) \<times> world" where
  "fetchLoop be sourceLang targetLang texts i results w =
     (if i < length texts then
        (case translateBatch be sourceLang targetLang (take batchSize (drop i texts)) w of
           (Inl e, w1) \<Rightarrow> (Inl e, w1)
         | (Inr batchResults, w1) \<Rightarrow>
             fetchLoop be sourceLang targetLang texts (i + batchSize)
               (case batchResults of JArray xs \<Rightarrow> results @ xs | _ \<Rightarrow> results @ [batchResults])
               (if i + batchSize < length texts then delay 200 w1 else w1))
      else (Inr results, w))"
  by pat_completeness auto
termination
  by (relation "measure (\<lambda>(be, sourceLang, targetLang, texts, i, results, w). length texts - i)")
     (auto simp: batchSize_def)

declare fetchLoop.simps [simp del]

definition fetchTranslationsFromApi ::
  "backend \<Rightarrow> jsstring list \<Rightarrow> jsstring \<Rightarrow> jsstring \<Rightarrow> world \<Rightarrow> (error + jsval list) \<times> world" where
  "fetchTranslationsFromApi be texts sourceLang targetLang w = fetchLoop be sourceLang targetLang texts 0 [] w"

text \<open>
  \<^verbatim>\<open>translateTexts\<close> (part_001, 21-77). \<^verbatim>\<open>getHash\<close> is SHA-256 in hexadecimal, a
  parameter here. \<^verbatim>\<open>cache[hash]\<close> is \<^verbatim>\<open>undefined\<close> for a missing key. The write to the
  storage is not awaited in the source; it is modelled as done when the call returns.
\<close>

definition cached :: "cache \<Rightarrow> jsstring \<Rightarrow> jsval" where
  "cached c h = (case c h of None \<Rightarrow> JUndefined | Some v \<Rightarrow> v)"

fun cacheLoop ::
  "(jsstring \<Rightarrow> jsstring) \<Rightarrow> cache \<Rightarrow> jsstring list \<Rightarrow> nat
     \<Rightarrow> jsval list \<times> nat list \<times> jsstring list \<Rightarrow> jsval list \<times> nat list \<times> jsstring list" where
  "cacheLoop getHash c [] i st = st"
| "cacheLoop getHash c (text # rest) i (results, uncachedIndices, uncachedTexts) =
     (if truthy (cached c (getHash text))
      then cacheLoop getHash c rest (Suc i)
             (results[i := cached c (getHash text)], uncachedIndices, uncachedTexts)
      else cacheLoop getHash c rest (Suc i)
             (results, uncachedIndices @ [i], uncachedTexts @ [text]))"

fun mergeLoop ::
  "(jsstring \<Rightarrow> jsstring) \<Rightarrow> nat list \<Rightarrow> jsstring list \<Rightarrow> jsval list \<Rightarrow> nat
     \<Rightarrow> jsval list \<times> cache \<Rightarrow> jsval list \<times> cache" where
  "mergeLoop getHash (originalIndex # is) (text # ts) apiResults i (results, newCache) =
     mergeLoop getHash is ts apiResults (Suc i)
       (results[originalIndex := elementAt apiResults i],
        newCache(getHash text \<mapsto> elementAt apiResults i))"
| "mergeLoop getHash is ts apiResults i st = st"

definition cacheKeyOf :: "jsstring \<Rightarrow> jsstring \<Rightarrow> jsstring" where
  "cacheKeyOf sourceLang targetLang = js ''tr_cache_'' @ sourceLang @ js ''_'' @ targetLang"

definition cacheOf :: "world \<Rightarrow> jsstring \<Rightarrow> cache" where
  "cacheOf w cacheKey = (case storage w cacheKey of None \<Rightarrow> Map.empty | Some c \<Rightarrow> c)"

definition translateTexts ::
  "(jsstring \<Rightarrow> jsstring) \<Rightarrow> backend \<Rightarrow> jsstring list \<Rightarrow> jsstring \<Rightarrow> jsstring \<Rightarrow> world
     \<Rightarrow> (error + jsval list) \<times> world" where
  "translateTexts getHash be texts sourceLang targetLang w =
     (let cacheKey = cacheKeyOf sourceLang targetLang;
          c = cacheOf w cacheKey;
          (results, uncachedIndices, uncachedTexts) =
             cacheLoop getHash c texts 0 (replicate (length texts) JNull, [], [])
      in if uncachedTexts = [] then (Inr results, w)
         else
           (case fetchTranslationsFromApi be uncachedTexts sourceLang targetLang w of
              (Inl e, w1) \<Rightarrow> (Inl e, w1)
            | (Inr apiResults, w1) \<Rightarrow>
                (let (results', newCache) =
                       mergeLoop getHash uncachedIndices uncachedTexts apiResults 0
                         (results, Map.empty)
                 in (Inr results',
                     w1\<lparr>storage := (storage w1)(cacheKey \<mapsto> c ++ newCache)\<rparr>))))"

text \<open>\<^verbatim>\<open>handleTranslateRequest\<close> (part_001, 186-195): \<^verbatim>\<open>{translated}\<close> or \<^verbatim>\<open>{error}\<close>.\<close>

datatype reply = ReplyTranslated "jsval list" | ReplyError error

definition handleTranslateRequest ::
  "(jsstring \<Rightarrow> jsstring) \<Rightarrow> backend \<Rightarrow> jsstring list \<Rightarrow> jsstring \<Rightarrow> jsstring \<Rightarrow> world
     \<Rightarrow> reply \<times> world" where
  "handleTranslateRequest getHash be texts sourceLang targetLang w =
     (case translateTexts getHash be texts sourceLang targetLang w of
        (Inr translated, w1) \<Rightarrow> (ReplyTranslated translated, w1)
      | (Inl e, w1) \<Rightarrow> (ReplyError e, w1))"

section \<open>The page pass of the content script\<close>

text \<open>
  \<^verbatim>\<open>isMainlyJapanese\<close> (content.js, 147-152): the share of code units in the ranges
  U+3040-309F, U+30A0-30FF and U+4E00-9FFF is above 0.3, written without division.
\<close>

definition isJapanese :: "jschar \<Rightarrow> bool" where
  "isJapanese c = ((12352 \<le> c \<and> c \<le> 12447) \<or> (12448 \<le> c \<and> c \<le> 12543) \<or> (19968 \<le> c \<and> c \<le> 40959))"

definition isMainlyJapanese :: "jsstring \<Rightarrow> bool" where
  "isMainlyJapanese text =
     (let matches = filter isJapanese text
      in if matches = [] then False else 10 * length matches > 3 * length text)"

text \<open>
  The page as the content script sees it: the elements matched by the target selectors, in
  document order. For each one the model keeps the element, whether
  \<^verbatim>\<open>closest(EXCLUDE_SELECTORS)\<close> finds something, the attribute
  \<^verbatim>\<open>data-immersive-translated\<close>, and the nodes the script has inserted right behind it
  (nearest first): loading indicators and translation elements (tag name and inner HTML).
  Target elements are taken to be apart from each other: what is inserted behind one is not
  part of another.
\<close>

datatype inserted = Loader | Translation jsstring jsstring

record fragment =
  element :: node
  excluded :: bool
  translatedAttr :: "jsstring option"
  following :: "inserted list"

record state =
  fragments :: "fragment list"
  isTranslated :: bool
  isTranslating :: bool

text \<open>\<^verbatim>\<open>collectTargetElements\<close> (content.js, 45-67); a target is named by its position.\<close>

definition isTarget :: "fragment \<Rightarrow> bool" where
  "isTarget f =
     (if translatedAttr f \<noteq> None then False
      else if excluded f then False
      else (let text = fst (getTranslatableText (element f))
            in if text = [] \<or> length text < 2 then False
               else if isMainlyJapanese text then False
               else True))"

definition collectTargetElements :: "state \<Rightarrow> nat list" where
  "collectTargetElements s = filter (\<lambda>i. isTarget (fragments s ! i)) [0..<length (fragments s)]"

definition showLoadingIndicator :: "fragment \<Rightarrow> fragment" where
  "showLoadingIndicator f =
     (case following f of Loader # rest \<Rightarrow> f | _ \<Rightarrow> f\<lparr>following := Loader # following f\<rparr>)"

definition removeLoadingIndicator :: "fragment \<Rightarrow> fragment" where
  "removeLoadingIndicator f =
     (case following f of Loader # rest \<Rightarrow> f\<lparr>following := rest\<rparr> | _ \<Rightarrow> f)"

definition tagName :: "node \<Rightarrow> jsstring" where
  "tagName n = (case n of Text s \<Rightarrow> [] | Element t a cs \<Rightarrow> t)"

definition insertTranslation :: "fragment \<Rightarrow> jsstring \<Rightarrow> fragment" where
  "insertTranslation f content =
     (let rest = (case following f of Translation t h # r \<Rightarrow> r | r \<Rightarrow> r)
      in f\<lparr>following := Translation (tagName (element f)) content # rest\<rparr>)"

definition updateAt :: "nat \<Rightarrow> (fragment \<Rightarrow> fragment) \<Rightarrow> state \<Rightarrow> state" where
  "updateAt i g s = s\<lparr>fragments := (fragments s)[i := g (fragments s ! i)]\<rparr>"

text \<open>
  What \<^verbatim>\<open>chrome.runtime.sendMessage\<close> gives for a batch: it rejects, or the service
  worker answers \<^verbatim>\<open>{error: message}\<close> or \<^verbatim>\<open>{translated: [...]}\<close>. The port is a function
  of the number of the batch and its texts.
\<close>

datatype response = SendRejected | ErrorResponse jsstring | TranslatedResponse "jsval list"

type_synonym port = "nat \<Rightarrow> jsstring list \<Rightarrow> response"

definition markLoading :: "nat list \<Rightarrow> state \<Rightarrow> state" where
  "markLoading batch s =
     fold (\<lambda>i. updateAt i (\<lambda>f. showLoadingIndicator (f\<lparr>translatedAttr := Some (js ''loading'')\<rparr>))) batch s"

definition unmark :: "nat list \<Rightarrow> state \<Rightarrow> state" where
  "unmark batch s =
     fold (\<lambda>i. updateAt i (\<lambda>f. (removeLoadingIndicator f)\<lparr>translatedAttr := None\<rparr>)) batch s"

text \<open>
  The \<^verbatim>\<open>forEach\<close> that inserts the results (content.js, 203-214). The flag is \<open>False\<close> when
  an exception leaves the loop: \<^verbatim>\<open>escapeHtml\<close> called on a value that is not a string, or
  a pattern that cannot be built. What was inserted before stays.
\<close>

fun insertResults ::
  "nat list \<Rightarrow> nat \<Rightarrow> jsval list \<Rightarrow> (jsstring \<times> placeholderMap) list \<Rightarrow> state \<Rightarrow> bool \<times> state" where
  "insertResults [] index translated batchData s = (True, s)"
| "insertResults (el # rest) index translated batchData s =
     (let s1 = updateAt el removeLoadingIndicator s
      in if truthy (elementAt translated index) then
           (case elementAt translated index of
              JString text \<Rightarrow>
                (case restorePlaceholders text (snd (batchData ! index)) of
                   Some translatedHtml \<Rightarrow>
                     insertResults rest (Suc index) translated batchData
                       (updateAt el (\<lambda>f. (insertTranslation f translatedHtml)
                                            \<lparr>translatedAttr := Some (js ''done'')\<rparr>) s1)
                 | None \<Rightarrow> (False, s1))
            | _ \<Rightarrow> (False, s1))
         else insertResults rest (Suc index) translated batchData s1)"

text \<open>
  One batch (content.js, 173-221). An answer \<^verbatim>\<open>{error: ''}\<close> passes the test of
  \<^verbatim>\<open>response.error\<close>; then reading \<^verbatim>\<open>response.translated[index]\<close> throws after the first
  loading indicator is removed, and the \<^verbatim>\<open>catch\<close> block cleans up.
\<close>

definition pageBatchSize :: nat where
  "pageBatchSize = 20"

definition processBatch :: "port \<Rightarrow> nat \<Rightarrow> nat list \<Rightarrow> state \<Rightarrow> state" where
  "processBatch p n batch s =
     (let batchData = map (\<lambda>i. getTranslatableText (element (fragments s ! i))) batch;
          texts = map fst batchData;
          s1 = markLoading batch s
      in case p n texts of
           SendRejected \<Rightarrow> unmark batch s1
         | ErrorResponse msg \<Rightarrow>
             if msg \<noteq> [] then unmark batch s1
             else (case batch of
                     [] \<Rightarrow> s1
                   | el # rest \<Rightarrow> unmark batch (updateAt el removeLoadingIndicator s1))
         | TranslatedResponse translated \<Rightarrow>
             (case insertResults batch 0 translated batchData s1 of
                (True, s2) \<Rightarrow> s2
              | (False, s2) \<Rightarrow> unmark batch s2))"

function batchLoop :: "port \<Rightarrow> nat list \<Rightarrow> nat \<Rightarrow> state \<Rightarrow> state" where
  "batchLoop p targets i s =
     (if i < length targets
      then batchLoop p targets (i + pageBatchSize)
             (processBatch p (i div pageBatchSize) (take pageBatchSize (drop i targets)) s)
      else s)"
  by pat_completeness auto
termination
  by (relation "measure (\<lambda>(p, targets, i, s). length targets - i)") (auto simp: pageBatchSize_def)

declare batchLoop.simps [simp del]

text \<open>
  \<^verbatim>\<open>translatePage\<close> (content.js, 159-228) gives the states it goes through: the state it
  starts in, then the state after each write to a flag and after the loop over the batches.
  The last one is the state it ends in.
\<close>

definition translatePage :: "port \<Rightarrow> state \<Rightarrow> state list" where
  "translatePage p s =
     (if isTranslating s then [s]
      else
        (let s1 = s\<lparr>isTranslating := True\<rparr>;
             targets = collectTargetElements s1
         in if targets = []
            then [s, s1, s1\<lparr>isTranslating := False\<rparr>, s1\<lparr>isTranslating := False\<rparr>]
            else
              (let s2 = batchLoop p targets 0 s1;
                   s3 = s2\<lparr>isTranslated := True\<rparr>
               in [s, s1, s2, s3, s3\<lparr>isTranslating := False\<rparr>])))"

text \<open>\<^verbatim>\<open>removeAllTranslations\<close> (content.js, 286-296) and \<^verbatim>\<open>toggleTranslate\<close> (303-309).\<close>

definition isResult :: "inserted \<Rightarrow> bool" where
  "isResult x = (case x of Translation t h \<Rightarrow> True | Loader \<Rightarrow> False)"

definition isLoader :: "inserted \<Rightarrow> bool" where
  "isLoader x = (case x of Loader \<Rightarrow> True | Translation t h \<Rightarrow> False)"

definition removeAllTranslations :: "state \<Rightarrow> state" where
  "removeAllTranslations s =
     (let fs1 = map (\<lambda>f. f\<lparr>following := filter (\<lambda>x. \<not> isResult x) (following f)\<rparr>) (fragments s);
          fs2 = map (\<lambda>f. f\<lparr>following := filter (\<lambda>x. \<not> isLoader x) (following f)\<rparr>) fs1;
          fs3 = map (\<lambda>f. f\<lparr>translatedAttr := None\<rparr>) fs2
      in s\<lparr>fragments := fs3, isTranslated := False\<rparr>)"

definition toggleTranslate :: "port \<Rightarrow> state \<Rightarrow> state" where
  "toggleTranslate p s =
     (if isTranslated s then removeAllTranslations s else last (translatePage p s))"

text \<open>
  The states of the session as the specification names them, whether some element carries
  an inserted translation, and the states reached between passes: from a page without
  inserted nodes, by page passes and by removing all translations.
\<close>

datatype phase = Idle | Translating | Translated

definition phaseOf :: "state \<Rightarrow> phase" where
  "phaseOf s = (if isTranslating s then Translating else if isTranslated s then Translated else Idle)"

definition carriesTranslation :: "state \<Rightarrow> bool" where
  "carriesTranslation s = list_ex (\<lambda>f. list_ex isResult (following f)) (fragments s)"

definition fresh :: "state \<Rightarrow> bool" where
  "fresh s = (\<not> isTranslated s \<and> \<not> isTranslating s
              \<and> list_all (\<lambda>f. following f = [] \<and> translatedAttr f = None) (fragments s))"

inductive quiescent :: "state \<Rightarrow> bool" where
  start: "fresh s \<Longrightarrow> quiescent s"
| pass: "quiescent s \<Longrightarrow> quiescent (last (translatePage p s))"
| revert: "quiescent s \<Longrightarrow> quiescent (removeAllTranslations s)"

section \<open>Notions used to state the properties of the client\<close>


definition hit :: "cache \<Rightarrow> (jsstring \<Rightarrow> jsstring) \<Rightarrow> jsstring \<Rightarrow> bool" where
  "hit c getHash text = truthy (cached c (getHash text))"

definition shaped :: "jsval \<Rightarrow> jsstring \<Rightarrow> bool" where
  "shaped item s = (item = JString s \<or> item = JArray [JString s])"

definition answersWith ::
  "backend \<Rightarrow> jsstring \<Rightarrow> jsstring \<Rightarrow> (nat \<Rightarrow> jsstring list \<Rightarrow> jsstring list) \<Rightarrow> bool" where
  "answersWith be sourceLang targetLang ans =
     (\<forall>n qs. qs \<noteq> [] \<longrightarrow>
        (\<exists>status statusText items.
            be n sourceLang targetLang qs = Response status statusText (Some (JArray items))
            \<and> 200 \<le> status \<and> status \<le> 299
            \<and> list_all2 shaped items (ans n qs))
        \<and> length (ans n qs) = length qs)"

function apiAnswers :: "(nat \<Rightarrow> jsstring list \<Rightarrow> jsstring list) \<Rightarrow> nat \<Rightarrow> jsstring list \<Rightarrow> jsstring list" where
  "apiAnswers ans n texts =
     (if texts = [] then []
      else ans n (take batchSize texts) @ apiAnswers ans (Suc n) (drop batchSize texts))"
  by pat_completeness auto

termination
  by (relation "measure (\<lambda>(ans, n, texts). length texts)") (auto simp: batchSize_def)

declare apiAnswers.simps [simp del]

definition rank :: "cache \<Rightarrow> (jsstring \<Rightarrow> jsstring) \<Rightarrow> jsstring list \<Rightarrow> nat \<Rightarrow> nat" where
  "rank c getHash texts j = length (filter (\<lambda>t. \<not> hit c getHash t) (take j texts))"

fun missIdx :: "cache \<Rightarrow> (jsstring \<Rightarrow> jsstring) \<Rightarrow> nat \<Rightarrow> jsstring list \<Rightarrow> nat list" where
  "missIdx c getHash i [] = []"
| "missIdx c getHash i (t # ts) =
     (if hit c getHash t then missIdx c getHash (Suc i) ts else i # missIdx c getHash (Suc i) ts)"

section \<open>Notions used to state the properties of extraction\<close>

text \<open>
  An element with its children replaced by one text; the entries a loop adds to the map for
  the nodes it visits, numbered from a given index; the test made on one path by
  \<^verbatim>\<open>querySelectorAll\<close>; the matches below a list of children, child by child, each child
  before its descendants; the number of matches below a node.
\<close>

definition withText :: "node \<Rightarrow> jsstring \<Rightarrow> node" where
  "withText n s = (case n of Text x \<Rightarrow> Text s | Element t a cs \<Rightarrow> Element t a [Text s])"

fun entries :: "jsstring \<Rightarrow> nat \<Rightarrow> node list \<Rightarrow> placeholderMap" where
  "entries kind i [] = []"
| "entries kind i (n # ns) = (placeholderId kind i, outerHTML n) # entries kind (Suc i) ns"

definition setAll :: "placeholderMap \<Rightarrow> placeholderMap \<Rightarrow> placeholderMap" where
  "setAll pmap es = fold (\<lambda>(k, v) m. setProperty m k v) es pmap"

definition pick :: "selector list \<Rightarrow> node \<Rightarrow> path \<Rightarrow> (path \<times> node) option" where
  "pick sels root p =
     (case subtree_at root p of
        None \<Rightarrow> None
      | Some n \<Rightarrow> if matchesAny sels n then Some (p, n) else None)"

fun matchesBelow :: "selector list \<Rightarrow> nat \<Rightarrow> node list \<Rightarrow> (path \<times> node) list" where
  "matchesBelow sels k [] = []"
| "matchesBelow sels k (c # cs) =
     (if matchesAny sels c then [([k], c)] else [])
     @ map (\<lambda>(p, n). (k # p, n)) (querySelectorAll sels c)
     @ matchesBelow sels (Suc k) cs"

definition matchCount :: "selector list \<Rightarrow> node \<Rightarrow> nat" where
  "matchCount sels n = length (querySelectorAll sels n)"

text \<open>
  One loop, described by recursion over the tree. The nodes that match the selectors are
  numbered in document order, starting from \<open>i\<close>. A matching node gets its token, between
  two spaces, as its only content; the matching nodes inside it are passed over, and each
  of them still takes a number. A node that does not match is kept, and the numbering goes
  on inside it.
\<close>

fun shield :: "selector list \<Rightarrow> jsstring \<Rightarrow> nat \<Rightarrow> node \<Rightarrow> node"
  and shieldChildren :: "selector list \<Rightarrow> jsstring \<Rightarrow> nat \<Rightarrow> node list \<Rightarrow> node list" where
  "shield sels kind i (Text s) = Text s"
| "shield sels kind i (Element t a cs) = Element t a (shieldChildren sels kind i cs)"
| "shieldChildren sels kind i [] = []"
| "shieldChildren sels kind i (c # cs) =
     (if matchesAny sels c
      then withText c (32 # placeholderId kind i @ [32])
             # shieldChildren sels kind (Suc i + matchCount sels c) cs
      else shield sels kind i c # shieldChildren sels kind (i + matchCount sels c) cs)"

section \<open>Notions used to state the properties of restoring\<close>


text \<open>
  Restoring, described with the drifted forms of an id instead of a regular expression.
  \<open>formAt tok s\<close> is the length of the longest drifted form of \<open>tok\<close> that \<open>s\<close> starts
  with, if there is one. \<open>replaceForms\<close> goes through a text from left to right: where a
  drifted form starts, the longest one is replaced by the replacement string with its
  dollar patterns expanded, and the search goes on behind it; otherwise one code unit is
  copied. \<open>restoreForms\<close> escapes the text and does this for every entry of the map, in
  the order of the map, each entry working on the text the entries before it have left.
\<close>

definition formAt :: "jsstring \<Rightarrow> jsstring \<Rightarrow> nat option" where
  "formAt tok s =
     (case filter (\<lambda>n. drifted matched_variant tok (take n s)) (rev [0..<Suc (length s)]) of
        [] \<Rightarrow> None
      | n # ns \<Rightarrow> Some n)"

lemma formAt_pos: "formAt tok s = Some n \<Longrightarrow> 0 < n \<and> n \<le> length s"
proof -
  assume "formAt tok s = Some n"
  then obtain ns where
    "filter (\<lambda>n. drifted matched_variant tok (take n s)) (rev [0..<Suc (length s)]) = n # ns"
    by (auto simp: formAt_def split: list.splits)
  then have "n \<in> set (filter (\<lambda>n. drifted matched_variant tok (take n s)) (rev [0..<Suc (length s)]))"
    by simp
  then have n: "n \<le> length s" and d: "drifted matched_variant tok (take n s)"
    by (simp_all del: upt_Suc add: less_Suc_eq_le)
  from d have "take n s \<noteq> []"
    by (cases "(matched_variant, tok, take n s)" rule: drifted.cases) auto
  with n show ?thesis by (cases n) auto
qed

function replaceForms :: "jsstring \<Rightarrow> jsstring \<Rightarrow> jsstring \<Rightarrow> jsstring \<Rightarrow> jsstring" where
  "replaceForms tok repl pre s =
     (case formAt tok s of
        Some n \<Rightarrow>
          getSubstitution (take n s) pre (drop n s) repl
          @ replaceForms tok repl (pre @ take n s) (drop n s)
      | None \<Rightarrow>
          (case s of [] \<Rightarrow> [] | c # cs \<Rightarrow> c # replaceForms tok repl (pre @ [c]) cs))"
  by pat_completeness auto

termination
proof (relation "measure (\<lambda>(tok, repl, pre, s). length s)")
  fix tok repl pre s :: jsstring and n :: nat
  assume "formAt tok s = Some n"
  then have "0 < n" and "n \<le> length s"
    using formAt_pos by blast+
  then show "((tok, repl, pre @ take n s, drop n s), (tok, repl, pre, s))
               \<in> measure (\<lambda>(tok, repl, pre, s). length s)"
    by simp
qed auto

declare replaceForms.simps [simp del]


section \<open>Example inputs\<close>

text \<open>
  Backends, worlds and pages at which the properties below are evaluated: a backend that is
  never reached, one that translates to the empty string, one that uses both shapes of
  answer, one that translates to \<^verbatim>\<open>Bonjour\<close>; the world before any request, and one whose
  cache holds a translation of \<^verbatim>\<open>Hello\<close>; a page with one English paragraph, a page with
  one Japanese paragraph, and a service worker that always answers with an error.
\<close>

text \<open>
  Fragments: the paragraph of the specification's scenario, a paragraph with a code node
  before a math node, a paragraph with a math node written with dollar delimiters, and a
  paragraph with a code node inside inline markup and a math node inside a math node, as
  in the markup of KaTeX, and a paragraph with a code node inside inline markup only. A map with two entries and a translated text in which both ids have
  drifted.
\<close>

definition helloFragment :: node where
  "helloFragment =
     Element (js ''p'') []
       [Text (js ''Hello ''), Element (js ''b'') [] [Text (js ''world'')],
        Element (js ''code'') [] [Text (js ''x=1'')]]"

definition mixedChildren :: "node list" where
  "mixedChildren =
     [Element (js ''code'') [] [Text (js ''a'')], Text (js '' and ''),
      Element (js ''span'') [(js ''class'', js ''math'')] [Text (js ''b'')]]"

definition mixedFragment :: node where
  "mixedFragment = Element (js ''p'') [] mixedChildren"

definition dollarFragment :: node where
  "dollarFragment =
     Element (js ''p'') []
       [Text (js ''Energy ''),
        Element (js ''span'') [(js ''class'', js ''math'')] [Text (js ''$$E=mc^2$$'')]]"

definition nestedFragment :: node where
  "nestedFragment =
     Element (js ''p'') []
       [Text (js ''Run ''),
        Element (js ''b'') [] [Element (js ''code'') [] [Text (js ''ls'')]],
        Text (js '' on ''),
        Element (js ''span'') [(js ''class'', js ''katex'')]
          [Element (js ''math'') [] [Text (js ''x'')]]]"

definition runFragment :: node where
  "runFragment =
     Element (js ''p'') []
       [Text (js ''Run ''),
        Element (js ''b'') [] [Element (js ''code'') [] [Text (js ''ls'')]],
        Text (js '' now'')]"



definition offline :: backend where
  "offline n sl tg texts = Rejected (js ''Failed to fetch'')"

definition emptyWorld :: world where
  "emptyWorld = \<lparr>calls = [], delays = [], storage = Map.empty\<rparr>"

definition emptyAnswer :: backend where
  "emptyAnswer n sl tg texts = Response 200 (js ''OK'') (Some (JArray [JString []]))"

definition firstCall :: "(error + jsval list) \<times> world" where
  "firstCall = translateTexts (\<lambda>t. t) emptyAnswer [js ''Hi''] (js ''en'') (js ''ja'') emptyWorld"

definition secondCall :: "(error + jsval list) \<times> world" where
  "secondCall = translateTexts (\<lambda>t. t) emptyAnswer [js ''Hi''] (js ''en'') (js ''ja'') (snd firstCall)"

definition tagBackend :: backend where
  "tagBackend n sl tg texts =
     Response 200 (js ''OK'')
       (Some (JArray (map (\<lambda>q. if n = 0 then JArray [JString (js ''T:'' @ q)]
                                else JString (js ''T:'' @ q)) texts)))"

definition tagAnswers :: "nat \<Rightarrow> jsstring list \<Rightarrow> jsstring list" where
  "tagAnswers n texts = map (\<lambda>q. js ''T:'' @ q) texts"

definition bonjour :: backend where
  "bonjour n sl tg texts = Response 200 (js ''OK'') (Some (JArray [JArray [JString (js ''Bonjour'')]]))"

definition warmWorld :: world where
  "warmWorld = \<lparr>calls = [], delays = [],
                 storage = [cacheKeyOf (js ''en'') (js ''fr'') \<mapsto> [js ''Hello'' \<mapsto> JString (js ''Bonjour'')]]\<rparr>"

definition para :: fragment where
  "para = \<lparr>element = Element (js ''p'') [] [Text (js ''Hello world'')], excluded = False,
           translatedAttr = None, following = []\<rparr>"

definition page0 :: state where
  "page0 = \<lparr>fragments = [para], isTranslated = False, isTranslating = False\<rparr>"

definition failingPort :: port where
  "failingPort n texts = ErrorResponse (js ''Failed to fetch'')"

definition japanesePara :: fragment where
  "japanesePara = \<lparr>element = Element (js ''p'') [] [Text [12371, 12428, 12399, 12486, 12473, 12488]],
                    excluded = False, translatedAttr = None, following = []\<rparr>"

definition japanesePage :: state where
  "japanesePage = \<lparr>fragments = [japanesePara], isTranslated = False, isTranslating = False\<rparr>"

section \<open>Properties of escaping and restoring\<close>

lemma join_single_append:
  "xs \<noteq> [] \<Longrightarrow> ys \<noteq> [] \<Longrightarrow>
   join sep (map (\<lambda>c. [c]) (xs @ ys)) = join sep (map (\<lambda>c. [c]) xs) @ sep @ join sep (map (\<lambda>c. [c]) ys)"
proof (induction xs rule: induct_list012)
  case (2 x)
  then show ?case by (cases ys) auto
qed auto

lemma escapedId_Cons:
  "escapedId (c # cs) = (if c = 95 then [91, 95, 65343, 93] else [c]) @ escapedId cs"
  by (simp add: escapedId_def replaceAllChar_def)

lemma escapedId_eq_Nil [simp]: "escapedId cs = [] \<longleftrightarrow> cs = []"
  by (cases cs) (auto simp: escapedId_Cons, simp add: escapedId_def replaceAllChar_def)

lemma patternSource_single: "patternSource [c] = piece c"
  by (simp add: patternSource_def escapedId_def replaceAllChar_def piece_def)

lemma patternSource_Cons2:
  "patternSource (c # c' # cs) = piece c @ [92, 115, 42] @ patternSource (c' # cs)"
proof -
  have "patternSource (c # c' # cs) =
        join [92, 115, 42] (map (\<lambda>c. [c]) ((if c = 95 then [91, 95, 65343, 93] else [c]) @ escapedId (c' # cs)))"
    by (simp add: patternSource_def escapedId_Cons)
  also have "\<dots> = join [92, 115, 42] (map (\<lambda>c. [c]) (if c = 95 then [91, 95, 65343, 93] else [c]))
                  @ [92, 115, 42] @ patternSource (c' # cs)"
    unfolding patternSource_def by (rule join_single_append) auto
  also have "join [92, 115, 42] (map (\<lambda>c. [c]) (if c = 95 then [91, 95, 65343, 93] else [c])) = piece c"
    by (simp add: piece_def)
  finally show ?thesis .
qed

lemma parse_piece:
  "idChar c \<Longrightarrow> parse Top acc (piece c @ r) = parse Top (Once (atom_of c) # acc) r"
  by (auto simp: piece_def atom_of_def underscoreClass_def idChar_def syntaxChar_def modelled_def)

lemma parse_sep:
  "parse Top (Once a # acc) ([92, 115, 42] @ r) = parse Top (Star ASpace # Once a # acc) r"
  by simp

lemma parse_patternSource_Cons:
  "idChar c \<Longrightarrow> \<forall>t\<in>set cs. idChar t \<Longrightarrow>
   parse Top acc (patternSource (c # cs)) = Some (rev acc @ Once (atom_of c) # tail_terms cs)"
proof (induction cs arbitrary: c acc)
  case Nil
  then show ?case
    using parse_piece [of c acc "[]"] by (simp add: patternSource_single)
next
  case (Cons c' cs)
  have "parse Top acc (patternSource (c # c' # cs))
        = parse Top (Once (atom_of c) # acc) ([92, 115, 42] @ patternSource (c' # cs))"
    using Cons.prems(1) by (simp only: patternSource_Cons2 parse_piece)
  also have "\<dots> = parse Top (Star ASpace # Once (atom_of c) # acc) (patternSource (c' # cs))"
    by (rule parse_sep)
  also have "\<dots> = Some (rev (Star ASpace # Once (atom_of c) # acc) @ Once (atom_of c') # tail_terms cs)"
    using Cons.prems(2) by (intro Cons.IH) auto
  finally show ?case by simp
qed

lemma parse_patternSource:
  "\<forall>t\<in>set tok. idChar t \<Longrightarrow> parse Top [] (patternSource tok) = Some (terms_of tok)"
proof (cases tok)
  case Nil
  then show ?thesis by (simp add: patternSource_def escapedId_def replaceAllChar_def)
next
  case (Cons c cs)
  assume "\<forall>t\<in>set tok. idChar t"
  with Cons show ?thesis
    using parse_patternSource_Cons [of c cs "[]"] by simp
qed

lemma matched_variant_atom:
  "idChar t \<Longrightarrow> matched_variant t c \<Longrightarrow> atom_matches (atom_of t) c"
  by (auto simp: matched_variant_def atom_of_def underscoreClass_def canonicalize_def split: if_splits)

lemma matchAt_tail_terms:
  "\<forall>t\<in>set ts. idChar t \<Longrightarrow> drifted_tail matched_variant ts d \<Longrightarrow>
   matchAt (tail_terms ts) (d @ post) \<noteq> None"
proof (induction d arbitrary: ts)
  case Nil
  then show ?case by (cases ts) auto
next
  case (Cons c cs)
  from Cons.prems(2) obtain t ts' where ts: "ts = t # ts'"
    by (cases ts) auto
  from Cons.prems(2) ts consider
    (tok) "matched_variant t c" "drifted_tail matched_variant ts' cs"
    | (ws) "isWhiteSpace c" "drifted_tail matched_variant (t # ts') cs"
    by auto
  then show ?case
  proof cases
    case tok
    then have rest: "matchAt (tail_terms ts') (cs @ post) \<noteq> None"
      using Cons.IH [of ts'] Cons.prems(1) ts by simp
    have am: "atom_matches (atom_of t) c"
      using tok(1) Cons.prems(1) ts by (simp add: matched_variant_atom)
    from rest am show ?thesis
      by (auto simp: ts split: option.splits)
  next
    case ws
    then have "matchAt (tail_terms (t # ts')) (cs @ post) \<noteq> None"
      using Cons.IH [of "t # ts'"] Cons.prems(1) ts by simp
    with ws(1) show ?thesis
      by (auto simp: ts split: option.splits)
  qed
qed

lemma matchAt_terms_of:
  assumes "\<forall>t\<in>set tok. idChar t" and "drifted matched_variant tok d"
  shows "matchAt (terms_of tok) (d @ post) \<noteq> None"
proof -
  from assms(2) obtain t ts c cs where
    tok: "tok = t # ts" and d: "d = c # cs" and v: "matched_variant t c"
    and tl: "drifted_tail matched_variant ts cs"
    by (cases "(matched_variant, tok, d)" rule: drifted.cases) auto
  have "matchAt (tail_terms ts) (cs @ post) \<noteq> None"
    using matchAt_tail_terms [OF _ tl] assms(1) tok by simp
  moreover have "atom_matches (atom_of t) c"
    using v assms(1) tok by (simp add: matched_variant_atom)
  ultimately show ?thesis
    by (auto simp: tok d)
qed

lemma replaceAll_here:
  "matchAt p s = Some n \<Longrightarrow>
   \<exists>m bef aft y. replaceAll p repl pre s = getSubstitution m bef aft repl @ y"
proof (cases s)
  case Nil
  assume "matchAt p s = Some n"
  with Nil have "replaceAll p repl pre s = getSubstitution [] pre [] repl @ []"
    by (simp add: replaceAll.simps)
  then show ?thesis by blast
next
  case (Cons c cs)
  assume "matchAt p s = Some n"
  with Cons have "\<exists>y. replaceAll p repl pre s
                   = getSubstitution (take n (c # cs)) pre (drop n (c # cs)) repl @ y"
    by (simp add: replaceAll.simps)
  then show ?thesis by blast
qed

lemma replaceAll_hit:
  "matchAt p b \<noteq> None \<Longrightarrow>
   \<exists>x m bef aft y. replaceAll p repl pre (a @ b) = x @ getSubstitution m bef aft repl @ y"
proof (induction a arbitrary: pre)
  case Nil
  then obtain n where "matchAt p b = Some n" by auto
  from replaceAll_here [OF this, of repl pre] show ?case
    by (metis append_Nil)
next
  case (Cons c cs)
  show ?case
  proof (cases "matchAt p ((c # cs) @ b)")
    case None
    from Cons.IH [OF Cons.prems, of "pre @ [c]"] obtain x m bef aft y where
      "replaceAll p repl (pre @ [c]) (cs @ b) = x @ getSubstitution m bef aft repl @ y"
      by blast
    then have "replaceAll p repl pre ((c # cs) @ b) = (c # x) @ getSubstitution m bef aft repl @ y"
      using None by (simp add: replaceAll.simps)
    then show ?thesis by blast
  next
    case (Some n)
    from replaceAll_here [OF this, of repl pre] show ?thesis
      by (metis append_Nil)
  qed
qed

lemma getSubstitution_no_dollar:
  "36 \<notin> set repl \<Longrightarrow> getSubstitution m bef aft repl = repl"
  by (induction m bef aft repl rule: getSubstitution.induct) auto

lemma wrapper_no_dollar: "36 \<notin> set html \<Longrightarrow> 36 \<notin> set (wrapper html)"
  by (simp add: wrapper_def js_def)

lemma replaceAllChar_append:
  "replaceAllChar c r (xs @ ys) = replaceAllChar c r xs @ replaceAllChar c r ys"
  by (simp add: replaceAllChar_def)

lemma escapeHtml_append: "escapeHtml (xs @ ys) = escapeHtml xs @ escapeHtml ys"
  by (simp add: escapeHtml_def replaceAllChar_append)

lemma replaceAllChar_id: "c \<notin> set s \<Longrightarrow> replaceAllChar c r s = s"
  by (induction s) (auto simp: replaceAllChar_def)

lemma escapeHtml_id:
  "set s \<inter> {38, 60, 62, 34, 39} = {} \<Longrightarrow> escapeHtml s = s"
  by (simp add: escapeHtml_def replaceAllChar_id)

lemma isWhiteSpace_not_special: "isWhiteSpace c \<Longrightarrow> c \<notin> {38, 60, 62, 34, 39}"
  by (auto simp: isWhiteSpace_def)

lemma matched_variant_not_special:
  "idChar t \<Longrightarrow> matched_variant t c \<Longrightarrow> c \<notin> {38, 60, 62, 34, 39}"
  by (auto simp: matched_variant_def idChar_def canonicalize_def isWhiteSpace_def split: if_splits)

lemma drifted_tail_not_special:
  "\<forall>t\<in>set ts. idChar t \<Longrightarrow> drifted_tail matched_variant ts d \<Longrightarrow>
   set d \<inter> {38, 60, 62, 34, 39} = {}"
proof (induction d arbitrary: ts)
  case Nil
  then show ?case by simp
next
  case (Cons c cs)
  from Cons.prems(2) obtain t ts' where ts: "ts = t # ts'"
    by (cases ts) auto
  from Cons.prems(2) ts consider
    (tok) "matched_variant t c" "drifted_tail matched_variant ts' cs"
    | (ws) "isWhiteSpace c" "drifted_tail matched_variant (t # ts') cs"
    by auto
  then show ?case
  proof cases
    case tok
    have "c \<notin> {38, 60, 62, 34, 39}"
      using matched_variant_not_special [OF _ tok(1)] Cons.prems(1) ts by simp
    moreover have "set cs \<inter> {38, 60, 62, 34, 39} = {}"
      using Cons.IH [OF _ tok(2)] Cons.prems(1) ts by simp
    ultimately show ?thesis by simp
  next
    case ws
    have "c \<notin> {38, 60, 62, 34, 39}"
      using isWhiteSpace_not_special [OF ws(1)] .
    moreover have "set cs \<inter> {38, 60, 62, 34, 39} = {}"
      using Cons.IH [OF _ ws(2)] Cons.prems(1) ts by simp
    ultimately show ?thesis by simp
  qed
qed

lemma drifted_not_special:
  assumes "\<forall>t\<in>set tok. idChar t" and "drifted matched_variant tok d"
  shows "set d \<inter> {38, 60, 62, 34, 39} = {}"
proof -
  from assms(2) obtain t ts c cs where
    tok: "tok = t # ts" and d: "d = c # cs" and v: "matched_variant t c"
    and tl: "drifted_tail matched_variant ts cs"
    by (cases "(matched_variant, tok, d)" rule: drifted.cases) auto
  have "c \<notin> {38, 60, 62, 34, 39}"
    using matched_variant_not_special [OF _ v] assms(1) tok by simp
  moreover have "set cs \<inter> {38, 60, 62, 34, 39} = {}"
    using drifted_tail_not_special [OF _ tl] assms(1) tok by simp
  ultimately show ?thesis by (simp add: d)
qed

lemma drifted_nonempty: "drifted V tok d \<Longrightarrow> d \<noteq> []"
  by (cases "(V, tok, d)" rule: drifted.cases) auto

lemma startsWith_append: "startsWith (n @ y) n"
  by (induction n) auto

lemma startsWith_iff: "startsWith hay n \<longleftrightarrow> (\<exists>y. hay = n @ y)"
  by (induction hay n rule: startsWith.induct) auto

lemma includes_str_append: "includes_str (x @ n @ y) n"
proof (induction x)
  case Nil
  then show ?case by (cases "n @ y") (auto simp: startsWith_iff, metis append_Cons)
next
  case (Cons a x)
  then show ?case by simp
qed

lemma restore_single_entry:
  assumes tok: "\<forall>t\<in>set tok. idChar t" and d: "drifted matched_variant tok d"
  shows "\<exists>x m bef aft y. restorePlaceholders (pre @ d @ post) [(tok, html)]
           = Some (x @ getSubstitution m bef aft (wrapper html) @ y)"
proof -
  have ne: "(pre @ d @ post = []) = False"
    using drifted_nonempty [OF d] by simp
  have esc: "escapeHtml (pre @ d @ post) = escapeHtml pre @ d @ escapeHtml post"
    using drifted_not_special [OF tok d] by (simp add: escapeHtml_append escapeHtml_id)
  have hit: "matchAt (terms_of tok) (d @ escapeHtml post) \<noteq> None"
    using matchAt_terms_of [OF tok d] .
  from replaceAll_hit [OF hit, of "wrapper html" "[]" "escapeHtml pre"]
  obtain x m bef aft y where
    "replaceAll (terms_of tok) (wrapper html) [] (escapeHtml pre @ d @ escapeHtml post)
       = x @ getSubstitution m bef aft (wrapper html) @ y"
    by blast
  then have "restorePlaceholders (pre @ d @ post) [(tok, html)]
           = Some (x @ getSubstitution m bef aft (wrapper html) @ y)"
    unfolding restorePlaceholders_def ne esc by (simp add: parse_patternSource [OF tok])
  then show ?thesis by blast
qed

lemma documented_variant_matched: "documented_variant t c \<Longrightarrow> matched_variant t c"
  by (auto simp: documented_variant_def matched_variant_def split: if_splits)

lemma drifted_tail_documented:
  "drifted_tail documented_variant ts d \<Longrightarrow> drifted_tail matched_variant ts d"
  by (induction d arbitrary: ts) (case_tac ts; auto dest: documented_variant_matched)+

lemma drifted_documented:
  "drifted documented_variant tok d \<Longrightarrow> drifted matched_variant tok d"
  by (cases "(documented_variant, tok, d)" rule: drifted.cases)
     (auto dest: documented_variant_matched drifted_tail_documented)

lemma includes_wrapper: "includes_str (x @ wrapper html @ y) html"
  using includes_str_append [of "x @ js ''<span class=\"immersive-translate-placeholder\">''" html "js ''</span>'' @ y"]
  by (simp add: wrapper_def)

lemmas js_eval =
  restorePlaceholders_def escapeHtml_def replaceAllChar_def js_def patternSource_def
  escapedId_def wrapper_def replaceAll.simps syntaxChar_def modelled_def isWhiteSpace_def
  canonicalize_def

text \<open>
  A drifted form within the documented tolerances is restored when the markup holds no
  dollar sign (36): the output contains the markup as it was.
\<close>

lemma restore_documented_drift:
  assumes "\<forall>t\<in>set tok. idChar t" and "drifted documented_variant tok d" and "36 \<notin> set html"
  shows "\<exists>out. restorePlaceholders (pre @ d @ post) [(tok, html)] = Some out
           \<and> includes_str out html"
proof -
  from restore_single_entry [OF assms(1) drifted_documented [OF assms(2)], of pre post html]
  obtain x m bef aft y where
    "restorePlaceholders (pre @ d @ post) [(tok, html)]
            = Some (x @ getSubstitution m bef aft (wrapper html) @ y)"
    by blast
  then have "restorePlaceholders (pre @ d @ post) [(tok, html)] = Some (x @ wrapper html @ y)"
    using assms(3) by (simp add: getSubstitution_no_dollar wrapper_no_dollar)
  then show ?thesis
    using includes_wrapper by blast
qed

text \<open>
  The pattern built for an id matches exactly the drifted forms of the id, and among those
  that start at a position the matcher finds the longest one.
\<close>

lemma formAt_Some:
  "formAt tok s = Some n \<longleftrightarrow>
     n \<le> length s \<and> drifted matched_variant tok (take n s)
     \<and> (\<forall>m\<le>length s. drifted matched_variant tok (take m s) \<longrightarrow> m \<le> n)"
proof -
  let ?P = "\<lambda>n. drifted matched_variant tok (take n s)"
  have *: "filter ?P (rev [0..<k]) = n # ns \<longleftrightarrow>
           n < k \<and> ?P n \<and> (\<forall>m<k. ?P m \<longrightarrow> m \<le> n) \<and> ns = filter ?P (rev [0..<n])" for k ns
  proof (induction k)
    case 0
    then show ?case by simp
  next
    case (Suc k)
    show ?case
    proof (cases "?P k")
      case True
      then show ?thesis by (auto simp: less_Suc_eq)
    next
      case False
      then show ?thesis
        using Suc by (auto simp: less_Suc_eq)
    qed
  qed
  show ?thesis
  proof
    assume "formAt tok s = Some n"
    then obtain ns where "filter ?P (rev [0..<Suc (length s)]) = n # ns"
      by (auto simp: formAt_def split: list.splits)
    then show "n \<le> length s \<and> ?P n \<and> (\<forall>m\<le>length s. ?P m \<longrightarrow> m \<le> n)"
      unfolding * by (auto simp: less_Suc_eq_le)
  next
    assume a: "n \<le> length s \<and> ?P n \<and> (\<forall>m\<le>length s. ?P m \<longrightarrow> m \<le> n)"
    then have "filter ?P (rev [0..<Suc (length s)]) = n # filter ?P (rev [0..<n])"
      unfolding * by (auto simp: less_Suc_eq_le)
    then show "formAt tok s = Some n"
      by (simp add: formAt_def)
  qed
qed

lemma formAt_None:
  "formAt tok s = None \<longleftrightarrow> (\<forall>m\<le>length s. \<not> drifted matched_variant tok (take m s))"
proof -
  have "formAt tok s = None \<longleftrightarrow>
        filter (\<lambda>n. drifted matched_variant tok (take n s)) (rev [0..<Suc (length s)]) = []"
    by (simp add: formAt_def split: list.splits)
  then show ?thesis
    by (auto simp: filter_empty_conv less_Suc_eq_le)
qed









text \<open>
  Where the declarative replacement finds a drifted form \<open>d\<close> and no form starts before
  it, the text before \<open>d\<close> is kept and \<open>d\<close>, or a longer form that starts with it, is
  replaced.
\<close>

lemma replaceForms_occurrence:
  assumes "drifted matched_variant tok d"
    and "\<forall>i<length pre. formAt tok (drop i (pre @ d @ post)) = None"
  shows "\<exists>m aft. m @ aft = d @ post \<and> length d \<le> length m \<and> drifted matched_variant tok m
           \<and> replaceForms tok repl acc (pre @ d @ post)
               = pre @ getSubstitution m (acc @ pre) aft repl
                 @ replaceForms tok repl (acc @ pre @ m) aft"
  using assms(2)
proof (induction pre arbitrary: acc)
  case Nil
  have "drifted matched_variant tok (take (length d) (d @ post))"
    using assms(1) by simp
  then have "formAt tok (d @ post) \<noteq> None"
    unfolding formAt_None by (metis le_add1 length_append)
  then obtain n where n: "formAt tok (d @ post) = Some n" by auto
  then have "n \<le> length (d @ post)" "drifted matched_variant tok (take n (d @ post))"
    and "\<forall>m\<le>length (d @ post). drifted matched_variant tok (take m (d @ post)) \<longrightarrow> m \<le> n"
    unfolding formAt_Some by simp_all
  moreover from this(3) assms(1) have "length d \<le> n"
    by (metis append_eq_conv_conj le_add1 length_append)
  ultimately show ?case
    using n
    by (intro exI [of _ "take n (d @ post)"] exI [of _ "drop n (d @ post)"])
       (simp add: replaceForms.simps [of tok repl acc "d @ post"])
next
  case (Cons c pre)
  from Cons.prems have 0: "formAt tok (c # pre @ d @ post) = None"
    by (metis append_Cons drop0 length_greater_0_conv list.distinct(1))
  have "\<forall>i<length pre. formAt tok (drop i (pre @ d @ post)) = None"
  proof (intro allI impI)
    fix i assume "i < length pre"
    then have "Suc i < length (c # pre)" by simp
    with Cons.prems have "formAt tok (drop (Suc i) ((c # pre) @ d @ post)) = None" by blast
    then show "formAt tok (drop i (pre @ d @ post)) = None" by simp
  qed
  from Cons.IH [OF this, of "acc @ [c]"] obtain m aft where
    "m @ aft = d @ post" "length d \<le> length m" "drifted matched_variant tok m"
    "replaceForms tok repl (acc @ [c]) (pre @ d @ post)
       = pre @ getSubstitution m ((acc @ [c]) @ pre) aft repl
         @ replaceForms tok repl ((acc @ [c]) @ pre @ m) aft"
    by blast
  then show ?case
    using 0
    by (intro exI [of _ m] exI [of _ aft])
       (simp add: replaceForms.simps [of tok repl acc "c # pre @ d @ post"])
qed

lemma escapeHtml_Nil: "escapeHtml [] = []"
  by (simp add: escapeHtml_def replaceAllChar_def)

text \<open>
  C4. The claim reads: for all texts, restore applied to the escaped text with an empty
  placeholder map returns the escaped text unchanged. \<^verbatim>\<open>restorePlaceholders\<close> escapes its
  argument itself, so on an escaped text it escapes a second time: an ampersand becomes
  \<^verbatim>\<open>&amp;\<close> and then \<^verbatim>\<open>&amp;amp;\<close>.
\<close>

theorem C4_counterexample:
  "restorePlaceholders (escapeHtml (js ''&'')) [] \<noteq> Some (escapeHtml (js ''&''))"
  by (simp add: restorePlaceholders_def escapeHtml_def replaceAllChar_def js_def)

text \<open>
  C4, amended. With an empty placeholder map restore is escaping: applied to a text it
  returns the escaped text, and applied to an escaped text it returns that text escaped
  once more.
\<close>

theorem C4_restore_empty_map:
  "restorePlaceholders text [] = Some (escapeHtml text)
   \<and> restorePlaceholders (escapeHtml text) [] = Some (escapeHtml (escapeHtml text))"
  by (simp add: restorePlaceholders_def escapeHtml_Nil)

section \<open>Extraction\<close>

lemma querySelectorAll_pick: "querySelectorAll sels root = List.map_filter (pick sels root) (paths_node root)"
  by (simp add: querySelectorAll_def pick_def [abs_def])

lemma map_filter_append: "List.map_filter f (xs @ ys) = List.map_filter f xs @ List.map_filter f ys"
  by (simp add: List.map_filter_def)

lemma pick_below:
  "i < length cs \<Longrightarrow> pick sels (Element t a cs) (i # q) = map_option (\<lambda>(p, n). (i # p, n)) (pick sels (cs ! i) q)"
  by (auto simp: pick_def split: option.splits)

lemma setAll_Cons: "setAll pmap ((k, v) # es) = setAll (setProperty pmap k v) es"
  by (simp add: setAll_def)

lemma map_filter_map: "List.map_filter f (map g xs) = List.map_filter (f \<circ> g) xs"
  by (induction xs) (simp_all add: List.map_filter_def)

lemma map_filter_map_option: "List.map_filter (\<lambda>x. map_option h (f x)) xs = map h (List.map_filter f xs)"
  by (induction xs) (auto simp: List.map_filter_def)

lemma paths_children_matches:
  "List.map_filter (pick sels (Element t a (pre @ cs))) (paths_children (length pre) cs)
     = matchesBelow sels (length pre) cs"
proof (induction cs arbitrary: pre)
  case Nil
  then show ?case by (simp add: List.map_filter_def)
next
  case (Cons c cs)
  let ?root = "Element t a (pre @ c # cs)"
  let ?i = "length pre"
  have i: "?i < length (pre @ c # cs)" and ci: "(pre @ c # cs) ! ?i = c"
    by simp_all
  have top: "pick sels ?root [?i] = (if matchesAny sels c then Some ([?i], c) else None)"
    by (simp add: pick_def)
  have "List.map_filter (pick sels ?root) (map ((#) ?i) (paths_node c))
          = List.map_filter (\<lambda>q. map_option (\<lambda>(p, n). (?i # p, n)) (pick sels c q)) (paths_node c)"
    using pick_below [OF i, of sels t a] by (simp add: map_filter_map comp_def ci)
  then have below: "List.map_filter (pick sels ?root) (map ((#) ?i) (paths_node c))
          = map (\<lambda>(p, n). (?i # p, n)) (querySelectorAll sels c)"
    by (simp add: map_filter_map_option querySelectorAll_pick)
  have rest: "List.map_filter (pick sels (Element t a ((pre @ [c]) @ cs)))
                (paths_children (length (pre @ [c])) cs) = matchesBelow sels (length (pre @ [c])) cs"
    by (rule Cons.IH)
  have split: "paths_children ?i (c # cs)
                 = [[?i]] @ map ((#) ?i) (paths_node c) @ paths_children (Suc ?i) cs"
    by simp
  have one: "List.map_filter (pick sels ?root) [[?i]]
               = (if matchesAny sels c then [([?i], c)] else [])"
    using top by (simp add: List.map_filter_def)
  show ?case
    unfolding split map_filter_append one below using rest by simp
qed

lemma querySelectorAll_Element:
  "querySelectorAll sels (Element t a cs) = matchesBelow sels 0 cs"
  using paths_children_matches [of sels t a "[]" cs] by (simp add: querySelectorAll_pick)

lemma querySelectorAll_Text: "querySelectorAll sels (Text s) = []"
  by (simp add: querySelectorAll_def List.map_filter_def)

lemma matchesBelow_paths:
  "(p, n) \<in> set (matchesBelow sels k cs) \<Longrightarrow> p \<noteq> [] \<and> k \<le> hd p"
  by (induction cs arbitrary: k) (auto split: if_splits, fastforce)

lemma querySelectorAll_paths: "(p, n) \<in> set (querySelectorAll sels root) \<Longrightarrow> p \<noteq> []"
  by (cases root) (auto simp: querySelectorAll_Text querySelectorAll_Element dest: matchesBelow_paths)

lemma forEach_append:
  "forEachPlaceholder kind visited (xs @ ys) st
     = forEachPlaceholder kind (visited @ map fst xs) ys (forEachPlaceholder kind visited xs st)"
proof (induction xs arbitrary: visited st)
  case Nil
  then show ?case by simp
next
  case (Cons x xs)
  obtain p el where x: "x = (p, el)" by (cases x)
  obtain clone pmap i where st: "st = (clone, pmap, i)" by (cases st)
  show ?case
    by (simp add: x st Let_def Cons.IH)
qed

lemma forEach_maps:
  "snd (forEachPlaceholder kind visited xs (clone, pmap, i))
     = (setAll pmap (entries kind i (map snd xs)), i + length xs)"
proof (induction xs arbitrary: visited clone pmap i)
  case Nil
  then show ?case by (simp add: setAll_def)
next
  case (Cons x xs)
  obtain p el where x: "x = (p, el)" by (cases x)
  show ?case
    by (simp add: x Let_def Cons.IH setAll_Cons)
qed

lemma forEach_shadowed:
  "\<forall>(p, n)\<in>set xs. list_ex (\<lambda>q. strict_prefix q p) visited \<Longrightarrow>
   fst (forEachPlaceholder kind visited xs (clone, pmap, i)) = clone"
proof (induction xs arbitrary: visited pmap i)
  case Nil
  then show ?case by simp
next
  case (Cons x xs)
  obtain p el where x: "x = (p, el)" by (cases x)
  have "\<forall>(p', n)\<in>set xs. list_ex (\<lambda>q. strict_prefix q p') (visited @ [p])"
    using Cons.prems by (auto simp: list_ex_iff)
  from Cons.IH [OF this] show ?case
    using Cons.prems by (simp add: x Let_def)
qed

lemma forEach_lift:
  assumes "\<And>p. list_ex (\<lambda>q. strict_prefix q (k # p)) visited = list_ex (\<lambda>q. strict_prefix q p) visited'"
    and "k < length cs"
  shows "fst (forEachPlaceholder kind visited (map (\<lambda>(p, n). (k # p, n)) xs) (Element t a cs, pmap, i))
         = Element t a (cs[k := fst (forEachPlaceholder kind visited' xs (cs ! k, pmap', i))])"
  using assms
proof (induction xs arbitrary: visited visited' cs pmap pmap' i)
  case Nil
  then show ?case by simp
next
  case (Cons x xs)
  obtain p el where x: "x = (p, el)" by (cases x)
  let ?tok = "32 # placeholderId kind i @ [32]"
  have R: "list_ex (\<lambda>q. strict_prefix q (k # p')) (visited @ [k # p])
           = list_ex (\<lambda>q. strict_prefix q p') (visited' @ [p])" for p'
    using Cons.prems(1) [of p'] by (simp add: strict_prefix_def)
  show ?case
  proof (cases "list_ex (\<lambda>q. strict_prefix q p) visited'")
    case True
    then have sh: "list_ex (\<lambda>q. strict_prefix q (k # p)) visited"
      using Cons.prems(1) by simp
    from Cons.IH [of "visited @ [k # p]" "visited' @ [p]" cs, OF R Cons.prems(2)]
    show ?thesis
      using True sh by (simp add: x Let_def)
  next
    case False
    then have sh: "\<not> list_ex (\<lambda>q. strict_prefix q (k # p)) visited"
      using Cons.prems(1) by simp
    let ?cs = "cs[k := set_textContent_at (cs ! k) p ?tok]"
    have len: "k < length ?cs" using Cons.prems(2) by simp
    from Cons.IH [of "visited @ [k # p]" "visited' @ [p]" ?cs, OF R len]
    show ?thesis
      using False sh Cons.prems(2) by (simp add: x Let_def)
  qed
qed

lemma set_textContent_top:
  "s \<noteq> [] \<Longrightarrow> k < length cs \<Longrightarrow>
   set_textContent_at (Element t a cs) [k] s = Element t a (cs[k := withText (cs ! k) s])"
  by (cases "cs ! k") (simp_all add: withText_def)

lemma no_prefix_below:
  "\<forall>q\<in>set visited. q \<noteq> [] \<and> hd q < (k::nat) \<Longrightarrow> \<not> list_ex (\<lambda>q. strict_prefix q (k # p)) visited"
proof -
  assume v: "\<forall>q\<in>set visited. q \<noteq> [] \<and> hd q < k"
  have "\<not> strict_prefix q (k # p)" if "q \<in> set visited" for q
  proof
    assume "strict_prefix q (k # p)"
    then have "prefix q (k # p)" by (simp add: strict_prefix_def)
    moreover from v that have "q \<noteq> []" and "hd q < k" by simp_all
    ultimately show False by (cases q) auto
  qed
  then show ?thesis by (auto simp: list_ex_iff)
qed

lemma forEach_shield:
  "fst (forEachPlaceholder kind [] (querySelectorAll sels n) (n, pmap, i)) = shield sels kind i n"
  and forEach_shieldChildren:
  "\<forall>q\<in>set visited. q \<noteq> [] \<and> hd q < length pre \<Longrightarrow>
   fst (forEachPlaceholder kind visited (matchesBelow sels (length pre) cs)
          (Element t a (pre @ cs), pmap, i))
     = Element t a (pre @ shieldChildren sels kind i cs)"
proof (induction sels kind i n and sels kind i cs arbitrary: pmap and pre visited pmap t a
       rule: shield_shieldChildren.induct)
  case (1 sels kind i s)
  then show ?case by (simp add: querySelectorAll_Text)
next
  case (2 sels kind i t a cs)
  from "2.IH" [of "[]" "[]" t a pmap] show ?case
    by (simp add: querySelectorAll_Element)
next
  case (3 sels kind i)
  then show ?case by simp
next
  case (4 sels kind i c cs)
  let ?k = "length pre"
  let ?B = "map (\<lambda>(p, n). (?k # p, n)) (querySelectorAll sels c)"
  let ?tok = "32 # placeholderId kind i @ [32]"
  show ?case
  proof (cases "matchesAny sels c")
    case True
    let ?clone1 = "Element t a (pre @ withText c ?tok # cs)"
    let ?v1 = "visited @ [[?k]]"
    have nv: "\<not> list_ex (\<lambda>q. strict_prefix q [?k]) visited"
      using no_prefix_below [OF "4.prems", of "[]"] .
    obtain pmap1 where a: "forEachPlaceholder kind visited [([?k], c)] (Element t a (pre @ c # cs), pmap, i)
             = (?clone1, pmap1, Suc i)"
      using nv set_textContent_top [of ?tok ?k "pre @ c # cs" t a]
      by (simp add: Let_def)
    have sh: "\<forall>(p', n)\<in>set ?B. list_ex (\<lambda>q. strict_prefix q p') ?v1"
      by (auto simp: list_ex_iff strict_prefix_def dest: querySelectorAll_paths)
    obtain pmap2 where b: "forEachPlaceholder kind ?v1 ?B (?clone1, pmap1, Suc i)
             = (?clone1, pmap2, Suc i + matchCount sels c)"
      using forEach_shadowed [OF sh, of kind ?clone1 pmap1 "Suc i"]
        forEach_maps [of kind ?v1 ?B ?clone1 pmap1 "Suc i"]
      by (cases "forEachPlaceholder kind ?v1 ?B (?clone1, pmap1, Suc i)") (simp add: matchCount_def)
    let ?v2 = "?v1 @ map fst ?B"
    have v2: "\<forall>q\<in>set ?v2. q \<noteq> [] \<and> hd q < length (pre @ [withText c ?tok])"
      using "4.prems" by (auto simp: less_Suc_eq)
    have c: "fst (forEachPlaceholder kind ?v2 (matchesBelow sels (length (pre @ [withText c ?tok])) cs)
                   (Element t a ((pre @ [withText c ?tok]) @ cs), pmap2, Suc i + matchCount sels c))
             = Element t a ((pre @ [withText c ?tok]) @ shieldChildren sels kind (Suc i + matchCount sels c) cs)"
      using "4.IH"(1) [OF True v2] .
    have "forEachPlaceholder kind visited (matchesBelow sels ?k (c # cs)) (Element t a (pre @ c # cs), pmap, i)
          = forEachPlaceholder kind ?v2 (matchesBelow sels (Suc ?k) cs) (?clone1, pmap2, Suc i + matchCount sels c)"
      using True forEach_append [of kind visited "[([?k], c)]" "?B @ matchesBelow sels (Suc ?k) cs"]
        forEach_append [of kind ?v1 ?B "matchesBelow sels (Suc ?k) cs"]
      by (simp add: a b del: forEachPlaceholder.simps)
    with c True show ?thesis by simp
  next
    case False
    let ?root = "Element t a (pre @ c # cs)"
    let ?c1 = "shield sels kind i c"
    have R: "list_ex (\<lambda>q. strict_prefix q (?k # p)) visited = list_ex (\<lambda>q. strict_prefix q p) []" for p
      using no_prefix_below [OF "4.prems", of p] by simp
    have k: "?k < length (pre @ c # cs)" by simp
    have "fst (forEachPlaceholder kind visited ?B (?root, pmap, i))
          = Element t a ((pre @ c # cs)[?k := fst (forEachPlaceholder kind [] (querySelectorAll sels c) ((pre @ c # cs) ! ?k, pmap, i))])"
      using forEach_lift [of ?k visited "[]" "pre @ c # cs" kind "querySelectorAll sels c" t a pmap i pmap, OF R k] .
    then have "fst (forEachPlaceholder kind visited ?B (?root, pmap, i)) = Element t a (pre @ ?c1 # cs)"
      using "4.IH"(2) [OF False, of pmap] by simp
    then obtain pmap2 where b: "forEachPlaceholder kind visited ?B (?root, pmap, i)
             = (Element t a (pre @ ?c1 # cs), pmap2, i + matchCount sels c)"
      using forEach_maps [of kind visited ?B ?root pmap i]
      by (cases "forEachPlaceholder kind visited ?B (?root, pmap, i)") (simp add: matchCount_def)
    let ?v2 = "visited @ map fst ?B"
    have v2: "\<forall>q\<in>set ?v2. q \<noteq> [] \<and> hd q < length (pre @ [?c1])"
      using "4.prems" by (auto simp: less_Suc_eq)
    have c: "fst (forEachPlaceholder kind ?v2 (matchesBelow sels (length (pre @ [?c1])) cs)
                   (Element t a ((pre @ [?c1]) @ cs), pmap2, i + matchCount sels c))
             = Element t a ((pre @ [?c1]) @ shieldChildren sels kind (i + matchCount sels c) cs)"
      using "4.IH"(3) [OF False v2] .
    have "forEachPlaceholder kind visited (matchesBelow sels ?k (c # cs)) (?root, pmap, i)
          = forEachPlaceholder kind ?v2 (matchesBelow sels (Suc ?k) cs)
              (Element t a (pre @ ?c1 # cs), pmap2, i + matchCount sels c)"
      using False forEach_append [of kind visited ?B "matchesBelow sels (Suc ?k) cs"]
      by (simp add: b del: forEachPlaceholder.simps)
    with c False show ?thesis by simp
  qed
qed

lemma decimal_value: "foldl (\<lambda>acc c. 10 * acc + (c - 48)) 0 (decimal n) = n"
proof (induction n rule: decimal.induct)
  case (1 n)
  show ?case
  proof (cases "n < 10")
    case True
    then show ?thesis by (subst decimal.simps) simp
  next
    case False
    with "1.IH" show ?thesis
      by (subst decimal.simps) simp
  qed
qed

lemma decimal_inj: "decimal i = decimal j \<Longrightarrow> i = j"
  by (metis decimal_value)

lemma placeholderId_inj: "placeholderId kind i = placeholderId kind j \<Longrightarrow> i = j"
  by (auto simp: placeholderId_def dest: decimal_inj)

lemma placeholderId_kinds: "placeholderId (js ''MATH'') i \<noteq> placeholderId (js ''CODE'') j"
  by (simp add: placeholderId_def js_def)

lemma entries_keys: "map fst (entries kind i ns) = map (placeholderId kind) [i..<i + length ns]"
proof (induction ns arbitrary: i)
  case Nil
  then show ?case by simp
next
  case (Cons n ns)
  have "[i..<i + length (n # ns)] = i # [Suc i..<Suc i + length ns]"
    by (simp add: upt_rec)
  with Cons show ?case by simp
qed

lemma entries_distinct:
  "distinct (map fst (entries (js ''MATH'') i ms @ entries (js ''CODE'') j ns))"
  by (auto simp: entries_keys distinct_map inj_on_def placeholderId_kinds dest: placeholderId_inj)

lemma setProperty_fresh: "k \<notin> fst ` set m \<Longrightarrow> setProperty m k v = m @ [(k, v)]"
  by (induction m) auto

lemma setAll_fresh: "distinct (map fst (m @ es)) \<Longrightarrow> setAll m es = m @ es"
proof (induction es arbitrary: m)
  case Nil
  then show ?case by (simp add: setAll_def)
next
  case (Cons e es)
  obtain k v where e: "e = (k, v)" by (cases e)
  have "k \<notin> fst ` set m"
    using Cons.prems e by auto
  then have "setAll m (e # es) = setAll (m @ [(k, v)]) es"
    by (simp add: e setAll_Cons setProperty_fresh)
  also have "\<dots> = (m @ [(k, v)]) @ es"
    using Cons.prems e by (intro Cons.IH) simp
  finally show ?case by (simp add: e)
qed

lemma forEach_phase:
  "forEachPlaceholder kind [] (querySelectorAll sels n) (n, pmap, i)
     = (shield sels kind i n,
        setAll pmap (entries kind i (map snd (querySelectorAll sels n))),
        i + matchCount sels n)"
  using forEach_shield [of kind sels n pmap i]
    forEach_maps [of kind "[]" "querySelectorAll sels n" n pmap i]
  by (cases "forEachPlaceholder kind [] (querySelectorAll sels n) (n, pmap, i)")
     (simp add: matchCount_def)

lemma getTranslatableText_shield:
  "getTranslatableText root
     = (trim (collapseWhitespace False
          (textContent (shield codeSelectors (js ''CODE'') (matchCount mathSelectors root)
                          (shield mathSelectors (js ''MATH'') 0 root)))),
        entries (js ''MATH'') 0 (map snd (querySelectorAll mathSelectors root))
        @ entries (js ''CODE'') (matchCount mathSelectors root)
            (map snd (querySelectorAll codeSelectors (shield mathSelectors (js ''MATH'') 0 root))))"
proof -
  let ?m = "matchCount mathSelectors root"
  let ?clone1 = "shield mathSelectors (js ''MATH'') 0 root"
  let ?E1 = "entries (js ''MATH'') 0 (map snd (querySelectorAll mathSelectors root))"
  let ?E2 = "entries (js ''CODE'') ?m (map snd (querySelectorAll codeSelectors ?clone1))"
  have d: "distinct (map fst (?E1 @ ?E2))"
    by (rule entries_distinct)
  then have "setAll [] ?E1 = ?E1"
    using setAll_fresh [of "[]" ?E1] by simp
  moreover have "setAll ?E1 ?E2 = ?E1 @ ?E2"
    using d by (rule setAll_fresh)
  ultimately have maps: "setAll (setAll [] ?E1) ?E2 = ?E1 @ ?E2"
    by simp
  show ?thesis
    by (simp add: getTranslatableText_def forEach_phase maps)
qed

lemma decimal_0: "decimal 0 = [48]"
  by (simp add: decimal.simps)

lemma decimal_1: "decimal (Suc 0) = [49]"
  by (simp add: decimal.simps)

lemma decimal_digit: "n < 10 \<Longrightarrow> decimal n = [48 + n]"
  by (simp add: decimal.simps)

lemmas extract_eval =
  getTranslatableText_def querySelectorAll_def List.map_filter_def mathSelectors_def
  codeSelectors_def matchesAny_def classList_def trim_def isWhiteSpace_def js_def
  placeholderId_def Let_def asciiWhitespace_def asciiLower_def decimal_0 decimal_1
  voidElement_def rawTextElement_def escapeText_def escapeAttr_def serializeAttrs_def
  replaceAllChar_def strict_prefix_def

lemma hello_extract:
  "getTranslatableText helloFragment
     = (js ''Hello world __CODE_0__'', [(js ''__CODE_0__'', js ''<code>x=1</code>'')])"
  by (simp add: helloFragment_def extract_eval)

text \<open>
  C9. The claim has the embedded nodes replaced in document order, each by the next token of
  its kind. \<^verbatim>\<open>getTranslatableText\<close> runs through all math nodes first and through the
  code nodes afterwards, with one counter for both. In a paragraph whose code node comes
  before its math node, the code node, first in document order, gets index 1 and the math
  node index 0: the text is neither the one a single pass in document order would give with
  one counter, nor the one it would give with a counter for each kind.
\<close>

theorem C9_counterexample:
  "getTranslatableText mixedFragment
     = (js ''__CODE_1__ and __MATH_0__'',
        [(js ''__MATH_0__'', js ''<span class=\"math\">b</span>''),
         (js ''__CODE_1__'', js ''<code>a</code>'')])
   \<and> fst (getTranslatableText mixedFragment) \<noteq> js ''__CODE_0__ and __MATH_1__''
   \<and> fst (getTranslatableText mixedFragment) \<noteq> js ''__CODE_0__ and __MATH_0__''"
  by (simp add: mixedFragment_def mixedChildren_def extract_eval)

text \<open>
  C9, amended. For every fragment, extract makes two passes with one counter: one over the
  math nodes, then one over the code nodes of the fragment as the first pass has left it. A
  pass numbers all nodes that match its selectors, in document order, from the index the
  counter has reached: the math nodes get \<^verbatim>\<open>__MATH_0__\<close> to \<^verbatim>\<open>__MATH_m-1__\<close>, the code
  nodes \<^verbatim>\<open>__CODE_m__\<close>, \<^verbatim>\<open>__CODE_m+1__\<close> and so on. A matching node that is not inside
  another node matched by the same pass has its content replaced by its token between two
  spaces. A matching node inside it takes a number and an entry of the map, and does not
  show in the text. A code node inside a math node is gone after the first pass and takes
  no number. The map holds each token with the outer markup of its node as the pass found
  it, the math entries first. The text is the text content after both passes, with runs of
  white space collapsed and the ends trimmed. For the paragraph
  \<^verbatim>\<open><p>Hello <b>world</b><code>x=1</code></p>\<close> the text is \<^verbatim>\<open>Hello world __CODE_0__\<close>
  and the map has the one entry of \<^verbatim>\<open>__CODE_0__\<close> with \<^verbatim>\<open><code>x=1</code>\<close>.
\<close>

theorem C9_math_first_then_code:
  "getTranslatableText root
     = (trim (collapseWhitespace False
          (textContent (shield codeSelectors (js ''CODE'') (matchCount mathSelectors root)
                          (shield mathSelectors (js ''MATH'') 0 root)))),
        entries (js ''MATH'') 0 (map snd (querySelectorAll mathSelectors root))
        @ entries (js ''CODE'') (matchCount mathSelectors root)
            (map snd (querySelectorAll codeSelectors (shield mathSelectors (js ''MATH'') 0 root))))
   \<and> getTranslatableText helloFragment
       = (js ''Hello world __CODE_0__'', [(js ''__CODE_0__'', js ''<code>x=1</code>'')])"
  using getTranslatableText_shield [of root] hello_extract by simp

lemma shield_nested:
  "shield codeSelectors (js ''CODE'') (matchCount mathSelectors nestedFragment)
     (shield mathSelectors (js ''MATH'') 0 nestedFragment)
   = Element (js ''p'') []
       [Text (js ''Run ''),
        Element (js ''b'') [] [Element (js ''code'') [] [Text (js '' __CODE_2__ '')]],
        Text (js '' on ''),
        Element (js ''span'') [(js ''class'', js ''katex'')] [Text (js '' __MATH_0__ '')]]"
  by (simp add: nestedFragment_def matchCount_def withText_def extract_eval decimal_digit)

lemma entries_nested:
  "entries (js ''MATH'') 0 (map snd (querySelectorAll mathSelectors nestedFragment))
   @ entries (js ''CODE'') (matchCount mathSelectors nestedFragment)
       (map snd (querySelectorAll codeSelectors (shield mathSelectors (js ''MATH'') 0 nestedFragment)))
   = [(js ''__MATH_0__'', js ''<span class=\"katex\"><math>x</math></span>''),
      (js ''__MATH_1__'', js ''<math>x</math>''),
      (js ''__CODE_2__'', js ''<code>ls</code>'')]"
  by (simp add: nestedFragment_def matchCount_def withText_def extract_eval decimal_digit)

lemma run_extract:
  "getTranslatableText runFragment
     = (js ''Run __CODE_0__ now'', [(js ''__CODE_0__'', js ''<code>ls</code>'')])"
  by (simp add: runFragment_def extract_eval)

text \<open>
  The paragraph \<^verbatim>\<open><p>Run <b><code>ls</code></b> on <span class="katex"><math>x</math></span></p>\<close>:
  the inner math node takes the number 1 and does not show in the text, the code node
  inside the bold element takes the number 2. In \<^verbatim>\<open><p>Run <b><code>ls</code></b> now</p>\<close>
  the code node is the only embedded node.
\<close>

theorem C9_witness:
  "getTranslatableText nestedFragment
     = (js ''Run __CODE_2__ on __MATH_0__'',
        [(js ''__MATH_0__'', js ''<span class=\"katex\"><math>x</math></span>''),
         (js ''__MATH_1__'', js ''<math>x</math>''),
         (js ''__CODE_2__'', js ''<code>ls</code>'')])
   \<and> getTranslatableText runFragment
       = (js ''Run __CODE_0__ now'', [(js ''__CODE_0__'', js ''<code>ls</code>'')])"
proof -
  have "trim (collapseWhitespace False (textContent
          (shield codeSelectors (js ''CODE'') (matchCount mathSelectors nestedFragment)
             (shield mathSelectors (js ''MATH'') 0 nestedFragment))))
        = js ''Run __CODE_2__ on __MATH_0__''"
    unfolding shield_nested by (simp add: trim_def isWhiteSpace_def js_def)
  with C9_math_first_then_code [of nestedFragment] entries_nested run_extract show ?thesis
    by simp
qed

text \<open>
  C1. The claim: for a fragment with one math node, restoring a translated text that holds
  the token gives back markup that contains the outer markup of the node as it was. The
  wrapper with the markup is handed to \<^verbatim>\<open>String.prototype.replace\<close> as the replacement
  string, where \<^verbatim>\<open>$$\<close>, \<^verbatim>\<open>$&\<close>, \<^verbatim>\<open>$`\<close> and \<^verbatim>\<open>$'\<close> are patterns. A math node
  written with \<^verbatim>\<open>$$\<close> delimiters is extracted with its markup, and restored with single
  dollar signs: the output does not contain the markup. (For markup without a dollar sign
  the round trip holds: \<open>restore_documented_drift\<close>.)
\<close>

theorem C1_dollar_markup_not_restored:
  "getTranslatableText dollarFragment
     = (js ''Energy __MATH_0__'',
        [(js ''__MATH_0__'', js ''<span class=\"math\">$$E=mc^2$$</span>'')])
   \<and> restorePlaceholders (js ''Energy __MATH_0__'')
         [(js ''__MATH_0__'', js ''<span class=\"math\">$$E=mc^2$$</span>'')]
       = Some (js ''Energy <span class=\"immersive-translate-placeholder\"><span class=\"math\">$E=mc^2$</span></span>'')
   \<and> \<not> includes_str
         (js ''Energy <span class=\"immersive-translate-placeholder\"><span class=\"math\">$E=mc^2$</span></span>'')
         (js ''<span class=\"math\">$$E=mc^2$$</span>'')"
proof -
  have "getTranslatableText dollarFragment
     = (js ''Energy __MATH_0__'',
        [(js ''__MATH_0__'', js ''<span class=\"math\">$$E=mc^2$$</span>'')])"
    by (simp add: dollarFragment_def extract_eval)
  moreover have "restorePlaceholders (js ''Energy __MATH_0__'')
         [(js ''__MATH_0__'', js ''<span class=\"math\">$$E=mc^2$$</span>'')]
       = Some (js ''Energy <span class=\"immersive-translate-placeholder\"><span class=\"math\">$E=mc^2$</span></span>'')"
    by (simp add: js_eval)
  moreover have "\<not> includes_str
         (js ''Energy <span class=\"immersive-translate-placeholder\"><span class=\"math\">$E=mc^2$</span></span>'')
         (js ''<span class=\"math\">$$E=mc^2$$</span>'')"
    by (simp add: js_def)
  ultimately show ?thesis by blast
qed

section \<open>Restoring with the maps that extraction produces\<close>










section \<open>The translation client\<close>

lemma translateAttempts_2:
  "translateAttempts be sl tg texts (Suc (Suc 0)) w =
     (case attemptResult texts (be (length (calls w)) sl tg texts) of
        Inr v \<Rightarrow> (Inr v, w\<lparr>calls := calls w @ [texts]\<rparr>)
      | Inl e \<Rightarrow> (Inl e, w\<lparr>calls := calls w @ [texts]\<rparr>))"
  by (subst translateAttempts.simps) (simp add: maxRetries_def fetch_def split: sum.splits)

lemma translateAttempts_1:
  "translateAttempts be sl tg texts (Suc 0) w =
     (case attemptResult texts (be (length (calls w)) sl tg texts) of
        Inr v \<Rightarrow> (Inr v, w\<lparr>calls := calls w @ [texts]\<rparr>)
      | Inl e \<Rightarrow> translateAttempts be sl tg texts (Suc (Suc 0))
                  (delay 1000 (w\<lparr>calls := calls w @ [texts]\<rparr>)))"
  by (subst translateAttempts.simps) (simp add: maxRetries_def fetch_def split: sum.splits)

lemma translateAttempts_0:
  "translateAttempts be sl tg texts 0 w =
     (case attemptResult texts (be (length (calls w)) sl tg texts) of
        Inr v \<Rightarrow> (Inr v, w\<lparr>calls := calls w @ [texts]\<rparr>)
      | Inl e \<Rightarrow> translateAttempts be sl tg texts (Suc 0)
                  (delay 500 (w\<lparr>calls := calls w @ [texts]\<rparr>)))"
  by (subst translateAttempts.simps) (simp add: maxRetries_def fetch_def split: sum.splits)



lemma normalize_map:
  "list_all2 shaped items strs \<Longrightarrow>
   map (\<lambda>item. case item of JArray ys \<Rightarrow> elementAt ys 0 | _ \<Rightarrow> JString (toString item)) items
     = map JString strs"
  by (induction rule: list_all2_induct) (auto simp: shaped_def elementAt_def)

lemma normalizeResponse_shaped:
  assumes "list_all2 shaped items strs" and "length strs = length qs"
  shows "normalizeResponse qs (JArray items) = Inr (JArray (map JString strs))"
proof (cases "length qs = 1")
  case True
  with assms obtain item s where items: "items = [item]" and strs: "strs = [s]" and sh: "shaped item s"
    by (cases items; cases strs) (auto simp: list_all2_Cons1)
  from sh have "(case elementAt [item] 0 of JArray ys \<Rightarrow> elementAt ys 0 | v \<Rightarrow> v) = JString s"
    by (auto simp: shaped_def elementAt_def)
  with True items strs show ?thesis
    by (simp add: normalizeResponse_def)
next
  case False
  with assms(1) show ?thesis
    by (simp add: normalizeResponse_def normalize_map)
qed

lemma translateBatch_answers:
  assumes "answersWith be sl tg ans" and "qs \<noteq> []"
  shows "translateBatch be sl tg qs w
           = (Inr (JArray (map JString (ans (length (calls w)) qs))), w\<lparr>calls := calls w @ [qs]\<rparr>)"
proof -
  from assms obtain status statusText items where
    r: "be (length (calls w)) sl tg qs = Response status statusText (Some (JArray items))"
    and ok: "200 \<le> status" "status \<le> 299"
    and sh: "list_all2 shaped items (ans (length (calls w)) qs)"
    and len: "length (ans (length (calls w)) qs) = length qs"
    unfolding answersWith_def by blast
  have "attemptResult qs (be (length (calls w)) sl tg qs)
          = Inr (JArray (map JString (ans (length (calls w)) qs)))"
    using ok by (simp add: attemptResult_def r normalizeResponse_shaped [OF sh len])
  then show ?thesis
    by (simp add: translateBatch_def translateAttempts_0)
qed

lemma fetchLoop_answers:
  "answersWith be sl tg ans \<Longrightarrow>
   \<exists>w'. fetchLoop be sl tg texts i acc w
           = (Inr (acc @ map JString (apiAnswers ans (length (calls w)) (drop i texts))), w')"
proof (induction be sl tg texts i acc w rule: fetchLoop.induct)
  case (1 be sl tg texts i results w)
  note assms = "1.prems"
  show ?case
  proof (cases "i < length texts")
    case False
    then show ?thesis
      by (subst fetchLoop.simps) (simp add: apiAnswers.simps)
  next
    case True
    let ?qs = "take batchSize (drop i texts)"
    let ?n = "length (calls w)"
    have ne: "?qs \<noteq> []"
      using True by (simp add: batchSize_def)
    have tb: "translateBatch be sl tg ?qs w
                = (Inr (JArray (map JString (ans ?n ?qs))), w\<lparr>calls := calls w @ [?qs]\<rparr>)"
      using translateBatch_answers [OF assms ne] .
    let ?w2 = "if i + batchSize < length texts
               then delay 200 (w\<lparr>calls := calls w @ [?qs]\<rparr>) else w\<lparr>calls := calls w @ [?qs]\<rparr>"
    have n2: "length (calls ?w2) = Suc ?n"
      by (simp add: delay_def)
    from "1.IH" [OF True tb [symmetric] refl assms]
    obtain w' where
      "fetchLoop be sl tg texts (i + batchSize) (results @ map JString (ans ?n ?qs)) ?w2
         = (Inr ((results @ map JString (ans ?n ?qs))
                  @ map JString (apiAnswers ans (length (calls ?w2)) (drop (i + batchSize) texts))), w')"
      by auto
    moreover have "apiAnswers ans ?n (drop i texts)
                     = ans ?n ?qs @ apiAnswers ans (Suc ?n) (drop (i + batchSize) texts)"
      using True by (subst apiAnswers.simps) (simp add: add.commute)
    ultimately have "fetchLoop be sl tg texts i results w
         = (Inr (results @ map JString (apiAnswers ans ?n (drop i texts))), w')"
      using True tb n2 by (subst fetchLoop.simps) simp
    then show ?thesis by blast
  qed
qed

lemma cacheLoop_lists:
  "cacheLoop getHash c texts i (res, ui, ut) = (res', ui', ut') \<Longrightarrow>
   ui' = ui @ missIdx c getHash i texts \<and> ut' = ut @ filter (\<lambda>t. \<not> hit c getHash t) texts
   \<and> length res' = length res"
proof (induction texts arbitrary: i res ui ut)
  case Nil
  then show ?case by simp
next
  case (Cons t ts)
  show ?case
  proof (cases "hit c getHash t")
    case True
    with Cons.prems have
      "cacheLoop getHash c ts (Suc i) (res[i := cached c (getHash t)], ui, ut) = (res', ui', ut')"
      by (simp add: hit_def)
    from Cons.IH [OF this] True show ?thesis by simp
  next
    case False
    with Cons.prems have
      "cacheLoop getHash c ts (Suc i) (res, ui @ [i], ut @ [t]) = (res', ui', ut')"
      by (simp add: hit_def)
    from Cons.IH [OF this] False show ?thesis by simp
  qed
qed

lemma cacheLoop_results:
  "cacheLoop getHash c texts i (res, ui, ut) = (res', ui', ut') \<Longrightarrow> j < length res \<Longrightarrow>
   res' ! j = (if i \<le> j \<and> j < i + length texts \<and> hit c getHash (texts ! (j - i))
               then cached c (getHash (texts ! (j - i))) else res ! j)"
proof (induction texts arbitrary: i res ui ut)
  case Nil
  then show ?case by auto
next
  case (Cons t ts)
  show ?case
  proof (cases "hit c getHash t")
    case True
    with Cons.prems(1) have
      "cacheLoop getHash c ts (Suc i) (res[i := cached c (getHash t)], ui, ut) = (res', ui', ut')"
      by (simp add: hit_def)
    from Cons.IH [OF this] Cons.prems(2) have
      "res' ! j = (if Suc i \<le> j \<and> j < Suc i + length ts \<and> hit c getHash (ts ! (j - Suc i))
                   then cached c (getHash (ts ! (j - Suc i)))
                   else (res[i := cached c (getHash t)]) ! j)"
      by simp
    with True Cons.prems(2) show ?thesis
      by (cases "j = i") (auto simp: nth_Cons' Suc_diff_le not_less_eq_eq)
  next
    case False
    with Cons.prems(1) have
      "cacheLoop getHash c ts (Suc i) (res, ui @ [i], ut @ [t]) = (res', ui', ut')"
      by (simp add: hit_def)
    from Cons.IH [OF this] Cons.prems(2) have
      "res' ! j = (if Suc i \<le> j \<and> j < Suc i + length ts \<and> hit c getHash (ts ! (j - Suc i))
                   then cached c (getHash (ts ! (j - Suc i))) else res ! j)"
      by simp
    with False show ?thesis
      by (cases "j = i") (auto simp: nth_Cons' Suc_diff_le not_less_eq_eq)
  qed
qed

lemma missIdx_ge: "x \<in> set (missIdx c getHash i texts) \<Longrightarrow> i \<le> x \<and> x < i + length texts"
  by (induction texts arbitrary: i) (fastforce split: if_splits)+

lemma missIdx_miss:
  "x \<in> set (missIdx c getHash i texts) \<Longrightarrow> \<not> hit c getHash (texts ! (x - i))"
proof (induction texts arbitrary: i)
  case Nil
  then show ?case by simp
next
  case (Cons t ts)
  show ?case
  proof (cases "x = i")
    case True
    with Cons.prems show ?thesis
      using missIdx_ge [of x c getHash "Suc i" ts] by (auto split: if_splits)
  next
    case False
    with Cons.prems have x: "x \<in> set (missIdx c getHash (Suc i) ts)"
      by (auto split: if_splits)
    from missIdx_ge [OF x] Cons.IH [OF x] show ?thesis
      by (simp add: nth_Cons' Suc_diff_le)
  qed
qed

lemma missIdx_distinct: "distinct (missIdx c getHash i texts)"
proof (induction texts arbitrary: i)
  case Nil
  then show ?case by simp
next
  case (Cons t ts)
  then show ?case
    using missIdx_ge [of i c getHash "Suc i" ts] by auto
qed

lemma missIdx_length:
  "length (missIdx c getHash i texts) = length (filter (\<lambda>t. \<not> hit c getHash t) texts)"
  by (induction texts arbitrary: i) auto

lemma missIdx_rank:
  "j < length texts \<Longrightarrow> \<not> hit c getHash (texts ! j) \<Longrightarrow>
   rank c getHash texts j < length (missIdx c getHash i texts)
   \<and> missIdx c getHash i texts ! rank c getHash texts j = i + j"
proof (induction texts arbitrary: i j)
  case Nil
  then show ?case by simp
next
  case (Cons t ts)
  show ?case
  proof (cases j)
    case 0
    with Cons.prems show ?thesis
      by (simp add: rank_def)
  next
    case (Suc k)
    with Cons.prems have k: "k < length ts" "\<not> hit c getHash (ts ! k)"
      by simp_all
    from Cons.IH [OF k, of "Suc i"] Suc show ?thesis
      by (simp add: rank_def)
  qed
qed

lemma mergeLoop_results:
  "length is = length ts \<Longrightarrow> distinct is \<Longrightarrow> \<forall>x\<in>set is. x < length res \<Longrightarrow>
   mergeLoop getHash is ts api k (res, nc) = (res', nc') \<Longrightarrow>
   length res' = length res
   \<and> (\<forall>m<length is. res' ! (is ! m) = elementAt api (k + m))
   \<and> (\<forall>j. j \<notin> set is \<longrightarrow> res' ! j = res ! j)"
proof (induction "is" arbitrary: ts k res nc)
  case Nil
  then show ?case by simp
next
  case (Cons x xs)
  from Cons.prems(1) obtain t ts' where ts: "ts = t # ts'"
    by (cases ts) auto
  let ?res1 = "res[x := elementAt api k]"
  from Cons.prems(4) ts have
    step: "mergeLoop getHash xs ts' api (Suc k) (?res1, nc(getHash t \<mapsto> elementAt api k)) = (res', nc')"
    by simp
  have "length xs = length ts'" "distinct xs" "\<forall>y\<in>set xs. y < length ?res1"
    using Cons.prems ts by simp_all
  from Cons.IH [OF this step] have
    len: "length res' = length res"
    and hitm: "\<forall>m<length xs. res' ! (xs ! m) = elementAt api (Suc k + m)"
    and other: "\<forall>j. j \<notin> set xs \<longrightarrow> res' ! j = ?res1 ! j"
    by simp_all
  have x: "x \<notin> set xs" "x < length res"
    using Cons.prems by simp_all
  have "\<forall>m<length (x # xs). res' ! ((x # xs) ! m) = elementAt api (k + m)"
  proof (intro allI impI)
    fix m assume m: "m < length (x # xs)"
    show "res' ! ((x # xs) ! m) = elementAt api (k + m)"
    proof (cases m)
      case 0
      then show ?thesis using other x by simp
    next
      case (Suc m')
      then show ?thesis using hitm m by simp
    qed
  qed
  moreover have "\<forall>j. j \<notin> set (x # xs) \<longrightarrow> res' ! j = res ! j"
    using other by simp
  ultimately show ?case
    using len by blast
qed

lemma apiAnswers_length:
  "answersWith be sl tg ans \<Longrightarrow> length (apiAnswers ans n texts) = length texts"
proof (induction ans n texts rule: apiAnswers.induct)
  case (1 ans n texts)
  show ?case
  proof (cases "texts = []")
    case True
    then show ?thesis by (simp add: apiAnswers.simps)
  next
    case False
    then have ne: "take batchSize texts \<noteq> []"
      by (simp add: batchSize_def)
    have "length (ans n (take batchSize texts)) = length (take batchSize texts)"
      using "1.prems" ne unfolding answersWith_def by blast
    moreover have "length (apiAnswers ans (Suc n) (drop batchSize texts)) = length (drop batchSize texts)"
      using "1.IH" [OF False "1.prems"] .
    ultimately show ?thesis
      using False by (subst apiAnswers.simps) simp
  qed
qed

text \<open>
  C2. Let the backend answer every request with an ok status and a list that has, for each
  text of the request in order, its translation either as a string or as a list holding
  that one string. Then the client returns a list as long as its input. At the index of a
  text found in the cache stands the cached value; at the index of the k-th text not found
  there stands the k-th string of the answers to the successive chunks. Only the position
  relates a text to its result.
\<close>

theorem C2_positional_results:
  fixes w :: world and texts :: "jsstring list" and getHash :: "jsstring \<Rightarrow> jsstring"
  assumes be: "answersWith be sl tg ans"
  defines "c \<equiv> cacheOf w (cacheKeyOf sl tg)"
  defines "api \<equiv> apiAnswers ans (length (calls w)) (filter (\<lambda>t. \<not> hit c getHash t) texts)"
  shows "\<exists>result w'. translateTexts getHash be texts sl tg w = (Inr result, w')
           \<and> length result = length texts
           \<and> (\<forall>j<length texts.
                 result ! j = (if hit c getHash (texts ! j) then cached c (getHash (texts ! j))
                               else JString (api ! rank c getHash texts j)))"
proof -
  obtain res ui ut where
    cl: "cacheLoop getHash c texts 0 (replicate (length texts) JNull, [], []) = (res, ui, ut)"
    by (metis prod_cases3)
  from cacheLoop_lists [OF cl] have
    ui: "ui = missIdx c getHash 0 texts"
    and ut: "ut = filter (\<lambda>t. \<not> hit c getHash t) texts"
    and len: "length res = length texts"
    by simp_all
  have resj: "\<And>j. j < length texts \<Longrightarrow>
               res ! j = (if hit c getHash (texts ! j) then cached c (getHash (texts ! j)) else JNull)"
    using cacheLoop_results [OF cl] by simp
  show ?thesis
  proof (cases "ut = []")
    case True
    then have allhit: "\<And>j. j < length texts \<Longrightarrow> hit c getHash (texts ! j)"
      unfolding ut by (auto simp: filter_empty_conv)
    have "translateTexts getHash be texts sl tg w = (Inr res, w)"
      using cl True by (simp add: translateTexts_def c_def Let_def)
    with len resj allhit show ?thesis by auto
  next
    case False
    from fetchLoop_answers [OF be, of ut 0 "[]" w] obtain w1 where
      f: "fetchTranslationsFromApi be ut sl tg w = (Inr (map JString api), w1)"
      by (auto simp: fetchTranslationsFromApi_def api_def ut)
    obtain res' nc where
      ml: "mergeLoop getHash ui ut (map JString api) 0 (res, Map.empty) = (res', nc)"
      by (metis surj_pair)
    have tt: "translateTexts getHash be texts sl tg w
                = (Inr res', w1\<lparr>storage := (storage w1)(cacheKeyOf sl tg \<mapsto> c ++ nc)\<rparr>)"
      using cl False f ml by (simp add: translateTexts_def c_def Let_def)
    have lens: "length ui = length ut"
      by (simp add: ui ut missIdx_length)
    have bound: "\<forall>x\<in>set ui. x < length res"
      using missIdx_ge [of _ c getHash 0 texts] by (auto simp: ui len)
    from mergeLoop_results [OF lens _ bound ml] missIdx_distinct [of c getHash 0 texts] have
      len': "length res' = length res"
      and upd: "\<forall>m<length ui. res' ! (ui ! m) = elementAt (map JString api) m"
      and keep: "\<forall>j. j \<notin> set ui \<longrightarrow> res' ! j = res ! j"
      by (simp_all add: ui)
    have apilen: "length api = length ut"
      by (simp add: api_def ut apiAnswers_length [OF be])
    have "\<forall>j<length texts.
            res' ! j = (if hit c getHash (texts ! j) then cached c (getHash (texts ! j))
                        else JString (api ! rank c getHash texts j))"
    proof (intro allI impI)
      fix j assume j: "j < length texts"
      show "res' ! j = (if hit c getHash (texts ! j) then cached c (getHash (texts ! j))
                        else JString (api ! rank c getHash texts j))"
      proof (cases "hit c getHash (texts ! j)")
        case True
        then have "j \<notin> set ui"
          using missIdx_miss [of j c getHash 0 texts] by (auto simp: ui)
        with keep resj [OF j] True show ?thesis by simp
      next
        case False
        from missIdx_rank [OF j False, of 0] have
          r: "rank c getHash texts j < length ui" "ui ! rank c getHash texts j = j"
          by (simp_all add: ui)
        from upd r have "res' ! j = elementAt (map JString api) (rank c getHash texts j)"
          by metis
        with r(1) lens apilen False show ?thesis
          by (simp add: elementAt_def)
      qed
    qed
    with tt len len' show ?thesis by simp
  qed
qed

lemma translateTexts_failure:
  assumes "cacheLoop getHash (cacheOf w (cacheKeyOf sl tg)) texts 0
             (replicate (length texts) JNull, [], []) = (res, ui, ut)"
    and "ut \<noteq> []"
    and "fetchTranslationsFromApi be ut sl tg w = (Inl e, w1)"
  shows "translateTexts getHash be texts sl tg w = (Inl e, w1)"
  using assms by (simp add: translateTexts_def Let_def)

text \<open>
  C5. When some text is not in the cache and the fetch for the texts not in the cache fails
  with an error, the whole call fails with that error and in the world the fetch left
  behind: the result is the error alone, without the list in which the cached values were
  already placed. The request handler then answers with the error and no translations.
\<close>

theorem C5_fail_closed:
  fixes w :: world and texts :: "jsstring list" and getHash :: "jsstring \<Rightarrow> jsstring"
    and sl tg :: jsstring
  defines "c \<equiv> cacheOf w (cacheKeyOf sl tg)"
  defines "uncachedTexts \<equiv> filter (\<lambda>t. \<not> hit c getHash t) texts"
  assumes "uncachedTexts \<noteq> []"
    and "fetchTranslationsFromApi be uncachedTexts sl tg w = (Inl e, w1)"
  shows "translateTexts getHash be texts sl tg w = (Inl e, w1)
         \<and> handleTranslateRequest getHash be texts sl tg w = (ReplyError e, w1)"
proof -
  obtain res ui ut where
    cl: "cacheLoop getHash c texts 0 (replicate (length texts) JNull, [], []) = (res, ui, ut)"
    by (metis prod_cases3)
  from cacheLoop_lists [OF cl] have ut: "ut = uncachedTexts"
    by (simp add: uncachedTexts_def)
  have "translateTexts getHash be texts sl tg w = (Inl e, w1)"
    using translateTexts_failure [OF cl [unfolded c_def]] assms(3,4) ut by simp
  then show ?thesis
    by (simp add: handleTranslateRequest_def)
qed

lemma fetch_single:
  "attemptResult [text] (be (length (calls w)) sl tg [text]) = Inr (JArray xs) \<Longrightarrow>
   fetchTranslationsFromApi be [text] sl tg w = (Inr xs, w\<lparr>calls := calls w @ [[text]]\<rparr>)"
  by (simp add: fetchTranslationsFromApi_def fetchLoop.simps [of _ _ _ _ 0]
      fetchLoop.simps [of _ _ _ _ 10] translateBatch_def translateAttempts_0 batchSize_def)

lemma translateTexts_single_miss:
  assumes "\<not> hit (cacheOf w (cacheKeyOf sl tg)) getHash text"
    and "attemptResult [text] (be (length (calls w)) sl tg [text]) = Inr (JArray [v])"
  shows "translateTexts getHash be [text] sl tg w
           = (Inr [v], w\<lparr>calls := calls w @ [[text]],
                          storage := (storage w)(cacheKeyOf sl tg \<mapsto>
                             cacheOf w (cacheKeyOf sl tg) ++ [getHash text \<mapsto> v])\<rparr>)"
  using assms
  by (simp add: translateTexts_def Let_def hit_def fetch_single elementAt_def)

lemma translateTexts_single_hit:
  assumes "hit (cacheOf w (cacheKeyOf sl tg)) getHash text"
  shows "translateTexts getHash be [text] sl tg w
           = (Inr [cached (cacheOf w (cacheKeyOf sl tg)) (getHash text)], w)"
  using assms by (simp add: translateTexts_def Let_def hit_def)

text \<open>
  C3, amended. For a fixed pair of languages and a text that is not in the cache, let the
  first attempt of the request succeed with a translation that is truthy (a non-empty
  string). Then the first call makes exactly one request and returns that translation, and
  the second call, made in the world the first one left, returns the same output and leaves
  that world as it is: it makes no request.
\<close>

theorem C3_second_call_from_cache:
  fixes w :: world and getHash :: "jsstring \<Rightarrow> jsstring" and sl tg :: jsstring
  assumes "\<not> hit (cacheOf w (cacheKeyOf sl tg)) getHash text"
    and "attemptResult [text] (be (length (calls w)) sl tg [text]) = Inr (JArray [v])"
    and "truthy v"
  shows "\<exists>w1. translateTexts getHash be [text] sl tg w = (Inr [v], w1)
           \<and> calls w1 = calls w @ [[text]]
           \<and> translateTexts getHash be [text] sl tg w1 = (Inr [v], w1)"
proof -
  let ?key = "cacheKeyOf sl tg"
  let ?w1 = "w\<lparr>calls := calls w @ [[text]],
               storage := (storage w)(?key \<mapsto> cacheOf w ?key ++ [getHash text \<mapsto> v])\<rparr>"
  have first: "translateTexts getHash be [text] sl tg w = (Inr [v], ?w1)"
    using assms(1,2) by (rule translateTexts_single_miss)
  have c1: "cached (cacheOf ?w1 ?key) (getHash text) = v"
    by (simp add: cacheOf_def cached_def)
  then have "hit (cacheOf ?w1 ?key) getHash text"
    using assms(3) by (simp add: hit_def)
  from translateTexts_single_hit [OF this, of be] c1
  have second: "translateTexts getHash be [text] sl tg ?w1 = (Inr [v], ?w1)"
    by simp
  from first second show ?thesis
    by (intro exI [of _ ?w1]) simp
qed

lemma firstCall_eq:
  "firstCall = (Inr [JString []],
      emptyWorld\<lparr>calls := [[js ''Hi'']],
                 storage := [cacheKeyOf (js ''en'') (js ''ja'') \<mapsto> [js ''Hi'' \<mapsto> JString []]]\<rparr>)"
  unfolding firstCall_def
  by (subst translateTexts_single_miss [where v = "JString []"])
     (simp_all add: hit_def cacheOf_def cached_def emptyWorld_def attemptResult_def
        emptyAnswer_def normalizeResponse_def elementAt_def)

text \<open>
  C3. The claim is made for every text and every backend. The cache test is
  \<^verbatim>\<open>if (cache[hash])\<close>, which an empty string fails. When the backend translates a text
  to the empty string, the second call does not find it and asks the backend again: two
  requests in total. The hash function plays no part in this, so the identity stands for
  it.
\<close>

theorem C3_counterexample:
  "fst firstCall = Inr [JString []] \<and> calls (snd firstCall) = [[js ''Hi'']]
   \<and> fst secondCall = Inr [JString []] \<and> calls (snd secondCall) = [[js ''Hi''], [js ''Hi'']]"
proof -
  let ?w1 = "emptyWorld\<lparr>calls := [[js ''Hi'']],
                 storage := [cacheKeyOf (js ''en'') (js ''ja'') \<mapsto> [js ''Hi'' \<mapsto> JString []]]\<rparr>"
  have "secondCall = translateTexts (\<lambda>t. t) emptyAnswer [js ''Hi''] (js ''en'') (js ''ja'') ?w1"
    by (simp add: secondCall_def firstCall_eq)
  also have "\<dots> = (Inr [JString []],
      ?w1\<lparr>calls := calls ?w1 @ [[js ''Hi'']],
          storage := (storage ?w1)(cacheKeyOf (js ''en'') (js ''ja'') \<mapsto>
             cacheOf ?w1 (cacheKeyOf (js ''en'') (js ''ja'')) ++ [js ''Hi'' \<mapsto> JString []])\<rparr>)"
    by (subst translateTexts_single_miss [where v = "JString []"])
       (simp_all add: hit_def cacheOf_def cached_def emptyWorld_def attemptResult_def
          emptyAnswer_def normalizeResponse_def elementAt_def)
  finally have sc: "secondCall = (Inr [JString []],
      ?w1\<lparr>calls := calls ?w1 @ [[js ''Hi'']],
          storage := (storage ?w1)(cacheKeyOf (js ''en'') (js ''ja'') \<mapsto>
             cacheOf ?w1 (cacheKeyOf (js ''en'') (js ''ja'')) ++ [js ''Hi'' \<mapsto> JString []])\<rparr>)" .
  show ?thesis
    unfolding sc firstCall_eq by (simp add: emptyWorld_def)
qed

lemma tagBackend_answers: "answersWith tagBackend sl tg tagAnswers"
proof -
  have "list_all2 shaped
          (map (\<lambda>q. if n = 0 then JArray [JString (js ''T:'' @ q)] else JString (js ''T:'' @ q)) qs)
          (map (\<lambda>q. js ''T:'' @ q) qs)" for n :: nat and qs
    by (induction qs) (simp_all add: shaped_def)
  then show ?thesis
    unfolding answersWith_def tagBackend_def tagAnswers_def by auto
qed

lemma list2: "length xs = 2 \<Longrightarrow> xs = [xs ! 0, xs ! 1]"
  by (cases xs; cases "tl xs") auto

text \<open>
  A backend that answers its first request with one-element lists and the later ones with
  plain strings: two texts come back translated in their positions.
\<close>

theorem C2_witness:
  "answersWith tagBackend (js ''en'') (js ''ja'') tagAnswers
   \<and> fst (translateTexts (\<lambda>t. t) tagBackend [js ''Hello'', js ''World''] (js ''en'') (js ''ja'')
            emptyWorld)
       = Inr [JString (js ''T:Hello''), JString (js ''T:World'')]"
proof -
  let ?texts = "[js ''Hello'', js ''World'']"
  let ?c = "cacheOf emptyWorld (cacheKeyOf (js ''en'') (js ''ja''))"
  have miss: "\<not> hit ?c (\<lambda>t. t) t" for t
    by (simp add: hit_def cacheOf_def cached_def emptyWorld_def)
  have api: "apiAnswers tagAnswers (length (calls emptyWorld)) (filter (\<lambda>t. \<not> hit ?c (\<lambda>t. t) t) ?texts)
               = [js ''T:Hello'', js ''T:World'']"
  proof -
    have "filter (\<lambda>t. \<not> hit ?c (\<lambda>t. t) t) ?texts = ?texts"
      using miss by simp
    then show ?thesis
      by (simp add: emptyWorld_def apiAnswers.simps [of _ _ "[_, _]"] apiAnswers.simps [of _ _ "[]"]
          batchSize_def tagAnswers_def js_def)
  qed
  have r0: "rank ?c (\<lambda>t. t) ?texts 0 = 0" and r1: "rank ?c (\<lambda>t. t) ?texts (Suc 0) = Suc 0"
    by (simp_all add: rank_def miss)
  from C2_positional_results [OF tagBackend_answers, where getHash = "\<lambda>t. t" and texts = ?texts
      and w = emptyWorld]
  obtain result w' where
    r: "translateTexts (\<lambda>t. t) tagBackend ?texts (js ''en'') (js ''ja'') emptyWorld = (Inr result, w')"
    and len: "length result = length ?texts"
    and nth: "\<forall>j<length ?texts. result ! j =
                (if hit ?c (\<lambda>t. t) (?texts ! j) then cached ?c (?texts ! j)
                 else JString (apiAnswers tagAnswers (length (calls emptyWorld))
                                 (filter (\<lambda>t. \<not> hit ?c (\<lambda>t. t) t) ?texts) ! rank ?c (\<lambda>t. t) ?texts j))"
    by blast
  from nth have "result ! 0 = JString (js ''T:Hello'')"
    unfolding api by (simp add: miss r0)
  moreover from nth have "result ! 1 = JString (js ''T:World'')"
    unfolding api by (simp add: miss r1)
  moreover have "length result = 2"
    using len by simp
  ultimately have "result = [JString (js ''T:Hello''), JString (js ''T:World'')]"
    using list2 [of result] by simp
  with r tagBackend_answers show ?thesis by simp
qed

text \<open>A text translated to \<^verbatim>\<open>Bonjour\<close>: one request for two calls.\<close>

theorem C3_witness:
  "\<exists>w1. translateTexts (\<lambda>t. t) bonjour [js ''Hello''] (js ''en'') (js ''fr'') emptyWorld
           = (Inr [JString (js ''Bonjour'')], w1)
        \<and> calls w1 = [[js ''Hello'']]
        \<and> translateTexts (\<lambda>t. t) bonjour [js ''Hello''] (js ''en'') (js ''fr'') w1
           = (Inr [JString (js ''Bonjour'')], w1)"
proof -
  have 1: "\<not> hit (cacheOf emptyWorld (cacheKeyOf (js ''en'') (js ''fr''))) (\<lambda>t. t) (js ''Hello'')"
    by (simp add: hit_def cacheOf_def cached_def emptyWorld_def)
  have 2: "attemptResult [js ''Hello''] (bonjour (length (calls emptyWorld)) (js ''en'') (js ''fr'') [js ''Hello''])
             = Inr (JArray [JString (js ''Bonjour'')])"
    by (simp add: attemptResult_def bonjour_def normalizeResponse_def elementAt_def)
  have 3: "truthy (JString (js ''Bonjour''))"
    by (simp add: js_def)
  from C3_second_call_from_cache [where w = emptyWorld and getHash = "\<lambda>t. t" and be = bonjour
      and v = "JString (js ''Bonjour'')", OF 1 2 3]
  show ?thesis
    by (simp add: emptyWorld_def)
qed

lemma fetch_single_offline:
  "fetchTranslationsFromApi offline [text] sl tg w
     = (Inl (NetworkError (js ''Failed to fetch'')),
        w\<lparr>calls := calls w @ [[text], [text], [text]], delays := delays w @ [500, 1000]\<rparr>)"
  by (simp add: fetchTranslationsFromApi_def fetchLoop.simps [of _ _ _ _ 0] translateBatch_def
      translateAttempts_0 translateAttempts_1 translateAttempts_2 batchSize_def offline_def
      attemptResult_def delay_def)

text \<open>
  One text is in the cache and one is not; the backend is never reached. The call fails with
  the transport error after three attempts, although the first text was a cache hit.
\<close>

theorem C5_witness:
  "translateTexts (\<lambda>t. t) offline [js ''Hello'', js ''World''] (js ''en'') (js ''fr'') warmWorld
     = (Inl (NetworkError (js ''Failed to fetch'')),
        warmWorld\<lparr>calls := [[js ''World''], [js ''World''], [js ''World'']], delays := [500, 1000]\<rparr>)
   \<and> hit (cacheOf warmWorld (cacheKeyOf (js ''en'') (js ''fr''))) (\<lambda>t. t) (js ''Hello'')"
proof -
  let ?c = "cacheOf warmWorld (cacheKeyOf (js ''en'') (js ''fr''))"
  have h: "hit ?c (\<lambda>t. t) (js ''Hello'')"
    by (simp add: hit_def cacheOf_def cached_def warmWorld_def js_def)
  have m: "\<not> hit ?c (\<lambda>t. t) (js ''World'')"
    by (simp add: hit_def cacheOf_def cached_def warmWorld_def js_def)
  have u: "filter (\<lambda>t. \<not> hit ?c (\<lambda>t. t) t) [js ''Hello'', js ''World''] = [js ''World'']"
    using h m by simp
  have ne: "filter (\<lambda>t. \<not> hit ?c (\<lambda>t. t) t) [js ''Hello'', js ''World''] \<noteq> []"
    using u by simp
  have f: "fetchTranslationsFromApi offline
             (filter (\<lambda>t. \<not> hit ?c (\<lambda>t. t) t) [js ''Hello'', js ''World'']) (js ''en'') (js ''fr'') warmWorld
           = (Inl (NetworkError (js ''Failed to fetch'')),
              warmWorld\<lparr>calls := [[js ''World''], [js ''World''], [js ''World'']], delays := [500, 1000]\<rparr>)"
    unfolding u by (simp add: fetch_single_offline) (simp add: warmWorld_def)
  from C5_fail_closed [OF ne f] h show ?thesis by simp
qed

section \<open>The session flags\<close>

lemma collectTargetElements_flags [simp]:
  "collectTargetElements (s\<lparr>isTranslating := b\<rparr>) = collectTargetElements s"
  by (simp add: collectTargetElements_def)

lemma translatePage_busy: "isTranslating s \<Longrightarrow> translatePage p s = [s]"
  by (simp add: translatePage_def)

lemma translatePage_empty:
  "\<not> isTranslating s \<Longrightarrow> collectTargetElements s = [] \<Longrightarrow>
   translatePage p s = [s, s\<lparr>isTranslating := True\<rparr>, s, s]"
  by (simp add: translatePage_def)

lemma translatePage_targets:
  "\<not> isTranslating s \<Longrightarrow> collectTargetElements s \<noteq> [] \<Longrightarrow>
   isTranslated (last (translatePage p s)) \<and> \<not> isTranslating (last (translatePage p s))"
  by (simp add: translatePage_def Let_def)

text \<open>
  C8. A pass that starts idle and finds no target goes from Idle to Translating and back to
  Idle: \<^verbatim>\<open>isTranslating\<close> is set, then reset (by the early return and again by the
  \<^verbatim>\<open>finally\<close> block), and \<^verbatim>\<open>isTranslated\<close> is true in none of the states passed.
\<close>

theorem C8_empty_selection:
  assumes "\<not> isTranslating s" and "\<not> isTranslated s" and "collectTargetElements s = []"
  shows "translatePage p s = [s, s\<lparr>isTranslating := True\<rparr>, s, s]
         \<and> map phaseOf (translatePage p s) = [Idle, Translating, Idle, Idle]
         \<and> (\<forall>st\<in>set (translatePage p s). \<not> isTranslated st)"
  using assms by (simp add: translatePage_empty phaseOf_def)

lemma carriesTranslation_removeAll: "\<not> carriesTranslation (removeAllTranslations s)"
  by (simp add: carriesTranslation_def removeAllTranslations_def list_ex_iff Let_def)

lemma removeAll_flags:
  "\<not> isTranslated (removeAllTranslations s)
   \<and> isTranslating (removeAllTranslations s) = isTranslating s"
  by (simp add: removeAllTranslations_def Let_def)

lemma fresh_no_translation: "fresh s \<Longrightarrow> \<not> carriesTranslation s"
  by (auto simp: fresh_def carriesTranslation_def list_ex_iff list_all_iff)

lemma quiescent_invariant:
  "quiescent s \<Longrightarrow> \<not> isTranslating s \<and> (carriesTranslation s \<longrightarrow> isTranslated s)"
proof (induction rule: quiescent.induct)
  case (start s)
  then show ?case
    using fresh_no_translation by (auto simp: fresh_def)
next
  case (pass s p)
  show ?case
  proof (cases "collectTargetElements s = []")
    case True
    with pass.IH show ?thesis
      by (simp add: translatePage_empty)
  next
    case False
    with pass.IH show ?thesis
      using translatePage_targets [of s p] by simp
  qed
next
  case (revert s)
  then show ?case
    using carriesTranslation_removeAll [of s] removeAll_flags [of s] by simp
qed

lemmas dom_eval =
  getTranslatableText_def querySelectorAll_def List.map_filter_def mathSelectors_def
  codeSelectors_def matchesAny_def classList_def trim_def isWhiteSpace_def js_def
  placeholderId_def Let_def

lemmas page_eval =
  collectTargetElements_def isTarget_def isMainlyJapanese_def isJapanese_def

lemma page0_targets: "collectTargetElements page0 = [0]"
  by (simp add: page_eval page0_def para_def dom_eval)

lemma page0_failed_pass:
  "last (translatePage failingPort page0) = page0\<lparr>isTranslated := True\<rparr>"
  by (simp add: translatePage_def page0_targets Let_def)
     (simp add: batchLoop.simps processBatch_def pageBatchSize_def markLoading_def unmark_def
        updateAt_def showLoadingIndicator_def removeLoadingIndicator_def failingPort_def
        page0_def para_def js_def)

lemma page0_fresh: "fresh page0"
  by (simp add: fresh_def page0_def para_def)

text \<open>
  C7. The claim says that between passes \<^verbatim>\<open>isTranslated\<close> holds exactly when some element
  carries an inserted translation, and that it is false after a pass whose batches all
  failed. \<^verbatim>\<open>translatePage\<close> sets the flag after the loop over the batches whatever
  happened in them. On a page with one paragraph and a service worker that answers with an
  error, the pass ends with the flag set and nothing inserted.
\<close>

theorem C7_counterexample:
  "quiescent (last (translatePage failingPort page0))
   \<and> isTranslated (last (translatePage failingPort page0))
   \<and> \<not> carriesTranslation (last (translatePage failingPort page0))"
proof -
  have "quiescent (last (translatePage failingPort page0))"
    using page0_fresh by (intro quiescent.pass quiescent.start)
  moreover have "\<not> carriesTranslation (page0\<lparr>isTranslated := True\<rparr>)"
    by (simp add: carriesTranslation_def page0_def para_def)
  ultimately show ?thesis
    by (simp add: page0_failed_pass)
qed

text \<open>
  C7, amended. Between passes \<^verbatim>\<open>isTranslating\<close> is false, and whenever some element
  carries an inserted translation \<^verbatim>\<open>isTranslated\<close> is true. The converse does not hold:
  a pass that finds at least one target ends with \<^verbatim>\<open>isTranslated\<close> true, also when every
  batch failed. After \<^verbatim>\<open>removeAllTranslations\<close> the flag is false and no element carries
  a translation.
\<close>

theorem C7_flag_set_by_pass:
  "(quiescent s \<longrightarrow> \<not> isTranslating s \<and> (carriesTranslation s \<longrightarrow> isTranslated s))
   \<and> (\<not> isTranslating s \<and> collectTargetElements s \<noteq> [] \<longrightarrow>
        isTranslated (last (translatePage p s)) \<and> \<not> isTranslating (last (translatePage p s)))
   \<and> \<not> isTranslated (removeAllTranslations s)
   \<and> \<not> carriesTranslation (removeAllTranslations s)"
  using quiescent_invariant [of s] translatePage_targets [of s p]
    carriesTranslation_removeAll [of s] removeAll_flags [of s]
  by blast

text \<open>The page with one paragraph, a failed pass, then the removal.\<close>

theorem C7_witness:
  "quiescent page0 \<and> \<not> isTranslating page0 \<and> collectTargetElements page0 \<noteq> []
   \<and> isTranslated (last (translatePage failingPort page0))
   \<and> \<not> isTranslated (removeAllTranslations (last (translatePage failingPort page0)))"
proof -
  have q: "quiescent page0"
    using page0_fresh by (rule quiescent.start)
  have t: "\<not> isTranslating page0"
    by (simp add: page0_def)
  have c: "collectTargetElements page0 \<noteq> []"
    by (simp add: page0_targets)
  from C7_flag_set_by_pass [of page0 failingPort] q t c
  have "isTranslated (last (translatePage failingPort page0))"
    by blast
  moreover from C7_flag_set_by_pass [of "last (translatePage failingPort page0)" failingPort]
  have "\<not> isTranslated (removeAllTranslations (last (translatePage failingPort page0)))"
    by blast
  ultimately show ?thesis
    using q t c by blast
qed

lemma japanesePage_targets: "collectTargetElements japanesePage = []"
  by (simp add: page_eval japanesePage_def japanesePara_def dom_eval)

text \<open>A page whose only paragraph is Japanese already has no target.\<close>

theorem C8_witness:
  "\<not> isTranslating japanesePage \<and> \<not> isTranslated japanesePage
   \<and> collectTargetElements japanesePage = []
   \<and> map phaseOf (translatePage failingPort japanesePage) = [Idle, Translating, Idle, Idle]"
proof -
  have 1: "\<not> isTranslating japanesePage" and 2: "\<not> isTranslated japanesePage"
    by (simp_all add: japanesePage_def)
  from C8_empty_selection [OF 1 2 japanesePage_targets, of failingPort] 1 2 japanesePage_targets
  show ?thesis by blast
qed

end
